theory Spec2Isabelle
  imports Complex_Main "HOL-Library.Sublist"
begin

section \<open>Campaign execution engine of RTK (rtx_innovations_electron/src/main.js)\<close>

text \<open>
  A shallow embedding of the functions of \<^verbatim>\<open>main.js\<close> that the specification's
  testable properties talk about. A JavaScript string is a sequence of 16-bit code units;
  the model has the strings whose code units are below 256 (the Latin-1 range, ASCII
  included), one HOL character for each code unit. A thrown \<^verbatim>\<open>Error\<close> is the left
  summand of a sum type, and an optional or nullable value is an \<open>option\<close>.
\<close>

subsection \<open>JavaScript values used by the engine\<close>

text \<open>A thrown \<^verbatim>\<open>new Error(message)\<close>.\<close>

datatype error = Error string

text \<open>
  JavaScript truthiness of a value that is a string when it is present: \<^verbatim>\<open>undefined\<close>,
  \<^verbatim>\<open>null\<close> and the empty string are falsy.
\<close>

definition truthy :: "string option \<Rightarrow> bool" where
  "truthy v = (case v of None \<Rightarrow> False | Some s \<Rightarrow> s \<noteq> [])"

text \<open>\<^verbatim>\<open>u.startsWith(p)\<close>\<close>

definition startsWith :: "string \<Rightarrow> string \<Rightarrow> bool" where
  "startsWith u p = prefix p u"

subsection \<open>Session manager: \<^verbatim>\<open>normalizeCredentials\<close>\<close>

text \<open>
  A credential object as Google's console exports it: the fields the function reads.
  \<open>redirect_uris\<close> is \<open>None\<close> when the field is absent or is not an array.
\<close>

record cred_obj =
  client_id :: "string option"
  client_secret :: "string option"
  redirect_uris :: "string list option"

text \<open>
  The raw credential document: \<^verbatim>\<open>raw.web\<close>, \<^verbatim>\<open>raw.installed\<close>, and the fields of the
  document itself (the flat shape).
\<close>

record raw_doc =
  web :: "cred_obj option"
  installed :: "cred_obj option"
  flat :: cred_obj

record normalized =
  norm_client_id :: string
  norm_client_secret :: string
  redirect_uri :: "string option"
  fixed :: bool
  host :: "string option"

text \<open>
  \<^verbatim>\<open>
  function normalizeCredentials(raw) {
    if (raw?.web) {
      const web = raw.web;
      if (!web.client_id || !web.client_secret) throw new Error('Missing client_id/client_secret');
      const exact = Array.isArray(web.redirect_uris)
        ? web.redirect_uris.find(u => u.startsWith('http://localhost')) : null;
      if (!exact) {
        return { client_id: web.client_id, client_secret: web.client_secret, redirect_uri: null, fixed: false };
      }
      return { client_id: web.client_id, client_secret: web.client_secret, redirect_uri: exact, fixed: true };
    }
    const creds = raw?.installed || raw;
    if (!creds) throw new Error('Invalid credentials file format');
    if (!creds.client_id || !creds.client_secret)
      throw new Error('Missing client_id/client_secret in credentials');
    const hasLocalhost = Array.isArray(creds.redirect_uris)
      && creds.redirect_uris.some(u => u.startsWith('http://localhost'));
    return { client_id: creds.client_id, client_secret: creds.client_secret, redirect_uri: null,
             fixed: false, host: hasLocalhost ? 'localhost' : '127.0.0.1' };
  }
  \<close>
  The argument is \<open>None\<close> for \<^verbatim>\<open>null\<close> or \<^verbatim>\<open>undefined\<close>.
\<close>

definition normalizeWeb :: "cred_obj \<Rightarrow> error + normalized" where
  "normalizeWeb w =
     (if \<not> truthy (client_id w) \<or> \<not> truthy (client_secret w)
      then Inl (Error ''Missing client_id/client_secret'')
      else
        (let exact = (case redirect_uris w of
                        Some us \<Rightarrow> find (\<lambda>u. startsWith u ''http://localhost'') us
                      | None \<Rightarrow> None)
         in if \<not> truthy exact
            then Inr \<lparr>norm_client_id = the (client_id w), norm_client_secret = the (client_secret w),
                      redirect_uri = None, fixed = False, host = None\<rparr>
            else Inr \<lparr>norm_client_id = the (client_id w), norm_client_secret = the (client_secret w),
                      redirect_uri = exact, fixed = True, host = None\<rparr>))"

definition normalizeInstalled :: "cred_obj \<Rightarrow> error + normalized" where
  "normalizeInstalled creds =
     (if \<not> truthy (client_id creds) \<or> \<not> truthy (client_secret creds)
      then Inl (Error ''Missing client_id/client_secret in credentials'')
      else
        (let hasLocalhost = (case redirect_uris creds of
                               Some us \<Rightarrow> list_ex (\<lambda>u. startsWith u ''http://localhost'') us
                             | None \<Rightarrow> False)
         in Inr \<lparr>norm_client_id = the (client_id creds), norm_client_secret = the (client_secret creds),
                  redirect_uri = None, fixed = False,
                  host = Some (if hasLocalhost then ''localhost'' else ''127.0.0.1'')\<rparr>))"

definition normalizeCredentials :: "raw_doc option \<Rightarrow> error + normalized" where
  "normalizeCredentials raw =
     (case (case raw of None \<Rightarrow> None | Some r \<Rightarrow> web r) of
        Some w \<Rightarrow> normalizeWeb w
      | None \<Rightarrow>
          (case (case raw of
                   None \<Rightarrow> None
                 | Some r \<Rightarrow> (case installed r of Some c \<Rightarrow> Some c | None \<Rightarrow> Some (flat r))) of
             None \<Rightarrow> Inl (Error ''Invalid credentials file format'')
           | Some creds \<Rightarrow> normalizeInstalled creds))"

text \<open>
  The words of the specification: the credential object of a document of one of the three
  accepted shapes (\<open>web\<close> first, then \<open>installed\<close>, then the flat document itself), and
  what it is for a field to be lacking (absent, or present and empty).
\<close>

definition credentials_of :: "raw_doc \<Rightarrow> cred_obj" where
  "credentials_of doc =
     (case web doc of
        Some w \<Rightarrow> w
      | None \<Rightarrow> (case installed doc of Some c \<Rightarrow> c | None \<Rightarrow> flat doc))"

definition lacks :: "string option \<Rightarrow> bool" where
  "lacks v = (v = None \<or> v = Some [])"

subsection \<open>Strings\<close>

text \<open>
  Characters that the sources name. Of the code units below 256, the white space and line
  terminators that \<^verbatim>\<open>String.prototype.trim\<close> removes are tab, line feed, vertical tab,
  form feed, carriage return, space and the no-break space U+00A0; and
  \<^verbatim>\<open>String.prototype.toLowerCase\<close> maps the letters A to Z and the capital letters from
  U+00C0 to U+00DE (all of that range but the multiplication sign U+00D7) to the code
  unit 32 above, and nothing else.
\<close>

definition backslash :: char where "backslash = CHR 0x5C"
definition dquote :: char where "dquote = CHR 0x22"
definition CR :: char where "CR = CHR 0x0D"
definition LF :: char where "LF = CHR 0x0A"
definition CRLF :: string where "CRLF = [CR, LF]"

definition is_space :: "char \<Rightarrow> bool" where
  "is_space c = (c \<in> set [CHR 0x09, CHR 0x0A, CHR 0x0B, CHR 0x0C, CHR 0x0D, CHR 0x20, CHR 0xA0])"

definition trim :: "string \<Rightarrow> string" where
  "trim s = rev (dropWhile is_space (rev (dropWhile is_space s)))"

definition upper_latin :: string where
  "upper_latin =
     [CHR 0xC0, CHR 0xC1, CHR 0xC2, CHR 0xC3, CHR 0xC4, CHR 0xC5, CHR 0xC6, CHR 0xC7, CHR 0xC8, CHR 0xC9,
      CHR 0xCA, CHR 0xCB, CHR 0xCC, CHR 0xCD, CHR 0xCE, CHR 0xCF, CHR 0xD0, CHR 0xD1, CHR 0xD2, CHR 0xD3,
      CHR 0xD4, CHR 0xD5, CHR 0xD6, CHR 0xD8, CHR 0xD9, CHR 0xDA, CHR 0xDB, CHR 0xDC, CHR 0xDD, CHR 0xDE]"

definition lower_latin :: string where
  "lower_latin =
     [CHR 0xE0, CHR 0xE1, CHR 0xE2, CHR 0xE3, CHR 0xE4, CHR 0xE5, CHR 0xE6, CHR 0xE7, CHR 0xE8, CHR 0xE9,
      CHR 0xEA, CHR 0xEB, CHR 0xEC, CHR 0xED, CHR 0xEE, CHR 0xEF, CHR 0xF0, CHR 0xF1, CHR 0xF2, CHR 0xF3,
      CHR 0xF4, CHR 0xF5, CHR 0xF6, CHR 0xF8, CHR 0xF9, CHR 0xFA, CHR 0xFB, CHR 0xFC, CHR 0xFD, CHR 0xFE]"

definition lower_char :: "char \<Rightarrow> char" where
  "lower_char c =
     (case map_of (zip (''ABCDEFGHIJKLMNOPQRSTUVWXYZ'' @ upper_latin)
                       (''abcdefghijklmnopqrstuvwxyz'' @ lower_latin)) c of
        Some l \<Rightarrow> l
      | None \<Rightarrow> c)"

definition toLowerCase :: "string \<Rightarrow> string" where
  "toLowerCase s = map lower_char s"

text \<open>\<^verbatim>\<open>s.includes(p)\<close>: \<open>p\<close> occurs in \<open>s\<close> as a contiguous piece.\<close>

definition includes_str :: "string \<Rightarrow> string \<Rightarrow> bool" where
  "includes_str s p = sublist p s"

text \<open>\<^verbatim>\<open>parts.join(sep)\<close>\<close>

fun join_str :: "string \<Rightarrow> string list \<Rightarrow> string" where
  "join_str sep [] = []"
| "join_str sep [g] = g"
| "join_str sep (g # h # gs) = g @ sep @ join_str sep (h # gs)"

text \<open>The number of positions of \<open>s\<close> at which \<open>m\<close> starts.\<close>

fun occurrences :: "string \<Rightarrow> string \<Rightarrow> nat" where
  "occurrences m [] = (if m = [] then 1 else 0)"
| "occurrences m (c # cs) = (if prefix m (c # cs) then 1 else 0) + occurrences m cs"

subsection \<open>Regular expressions that are literals, and \<^verbatim>\<open>String.prototype.replace\<close>\<close>

text \<open>
  The pattern sources that \<open>renderWithRow\<close> builds are read by the part of the regular
  expression language modelled here: a pattern made of characters that stand for
  themselves and of identity escapes (a backslash before a syntax character, a hyphen or a
  slash). \<open>regex_literal\<close> returns the text such a pattern matches, and \<open>None\<close> for a
  pattern with anything else in it (an operator, a class, a group, an escape with a
  meaning of its own, a dangling backslash).
\<close>

definition syntax_char :: "char \<Rightarrow> bool" where
  "syntax_char c = (c \<in> set ''^$.*+?()[]{}|'' \<or> c = backslash)"

definition identity_escape :: "char \<Rightarrow> bool" where
  "identity_escape c = (syntax_char c \<or> c = CHR ''-'' \<or> c = CHR ''/'')"

fun regex_literal :: "string \<Rightarrow> string option" where
  "regex_literal [] = Some []"
| "regex_literal [c] = (if syntax_char c then None else Some [c])"
| "regex_literal (c # d # cs) =
     (if c = backslash
      then (if identity_escape d then map_option (Cons d) (regex_literal cs) else None)
      else if syntax_char c then None
      else map_option (Cons c) (regex_literal (d # cs)))"

text \<open>
  The replacement text of one match (ECMAScript's GetSubstitution) for a pattern without
  capture groups: in the replacement template \<^verbatim>\<open>$$\<close> stands for a dollar sign,
  \<^verbatim>\<open>$&\<close> for the matched text, \<^verbatim>\<open>$`\<close> for the subject before the match and
  \<^verbatim>\<open>$'\<close> for the subject after it; a dollar sign before anything else (a digit
  included, as there is no group to refer to) stands for itself.
\<close>

fun GetSubstitution :: "string \<Rightarrow> string \<Rightarrow> string \<Rightarrow> string \<Rightarrow> string" where
  "GetSubstitution matched passed rest [] = []"
| "GetSubstitution matched passed rest [c] = [c]"
| "GetSubstitution matched passed rest (c # d # cs) =
     (if c = CHR ''$'' then
        (if d = CHR ''$'' then CHR ''$'' # GetSubstitution matched passed rest cs
         else if d = CHR ''&'' then matched @ GetSubstitution matched passed rest cs
         else if d = CHR 0x60 then passed @ GetSubstitution matched passed rest cs
         else if d = CHR 0x27 then rest @ GetSubstitution matched passed rest cs
         else c # GetSubstitution matched passed rest (d # cs))
      else c # GetSubstitution matched passed rest (d # cs))"

text \<open>
  \<^verbatim>\<open>s.replace(re, template)\<close> for a global (\<^verbatim>\<open>g\<close>) expression \<open>re\<close> that matches the
  literal \<open>pat\<close>: the matches are found from left to right, each search starting where
  the match before ended (one character further after an empty match); \<open>passed\<close> is
  the part of the subject already passed.
\<close>

function replace_literal_g :: "string \<Rightarrow> string \<Rightarrow> string \<Rightarrow> string \<Rightarrow> string" where
  "replace_literal_g pat template passed [] =
     (if pat = [] then GetSubstitution [] passed [] template else [])"
| "replace_literal_g pat template passed (c # cs) =
     (if prefix pat (c # cs) then
        (if pat = [] then
           GetSubstitution [] passed (c # cs) template
             @ c # replace_literal_g pat template (passed @ [c]) cs
         else
           GetSubstitution pat passed (drop (length pat) (c # cs)) template
             @ replace_literal_g pat template (passed @ pat) (drop (length pat) (c # cs)))
      else c # replace_literal_g pat template (passed @ [c]) cs)"
  by pat_completeness auto
termination
  by (relation "measure (\<lambda>(pat, template, passed, s). length s)") (auto simp: neq_Nil_conv)

definition replace_regex_g :: "string \<Rightarrow> string \<Rightarrow> string \<Rightarrow> string option" where
  "replace_regex_g source template s =
     map_option (\<lambda>pat. replace_literal_g pat template [] s) (regex_literal source)"

subsection \<open>Template renderer: \<^verbatim>\<open>renderWithRow\<close>\<close>

text \<open>
  \<^verbatim>\<open>
  function renderWithRow(content, headers, row, signature) {
    let out = content;
    headers.forEach((h, i) => {
      const key = String(h).trim();
      const re = new RegExp(`\\(\\(${key.replace(/[-/\\^$*+?.()|[\]{}]/g, '\\$&')}\\)\\)`, 'g');
      out = out.replace(re, row[i] != null ? String(row[i]) : '');
    });
    if (signature) out = out + '\n\n' + signature.replace(/<[^>]+>/g, '');
    return out;
  }
  \<close>
  The sheet's cells are strings (the provider returns formatted values), and a row may be
  shorter than the header list: \<^verbatim>\<open>row[i]\<close> is then \<^verbatim>\<open>undefined\<close>.
\<close>

type_synonym row = "string list"

text \<open>\<^verbatim>\<open>row[i]\<close>: \<open>None\<close> is \<^verbatim>\<open>undefined\<close>.\<close>

definition cell :: "row \<Rightarrow> nat \<Rightarrow> string option" where
  "cell r i = (if i < length r then Some (r ! i) else None)"

text \<open>\<^verbatim>\<open>row[i] != null ? String(row[i]) : ''\<close>\<close>

definition cell_text :: "row \<Rightarrow> nat \<Rightarrow> string" where
  "cell_text r i = (case cell r i of Some v \<Rightarrow> v | None \<Rightarrow> [])"

text \<open>
  \<^verbatim>\<open>key.replace(/[-/\\^$*+?.()|[\]{}]/g, '\\$&')\<close>: a backslash goes before every
  character of the class.
\<close>

definition escaped_class :: "char \<Rightarrow> bool" where
  "escaped_class c = (c \<in> set ''-/^$*+?.()|[]{}'' \<or> c = backslash)"

definition escapeRegExp :: "string \<Rightarrow> string" where
  "escapeRegExp key = concat (map (\<lambda>c. if escaped_class c then [backslash, c] else [c]) key)"

text \<open>The source of the expression: \<^verbatim>\<open>\(\(\<close>, the escaped key, \<^verbatim>\<open>\)\)\<close>.\<close>

definition placeholder_source :: "string \<Rightarrow> string" where
  "placeholder_source key =
     [backslash, CHR ''('', backslash, CHR ''(''] @ escapeRegExp key
       @ [backslash, CHR '')'', backslash, CHR '')'']"

text \<open>
  \<^verbatim>\<open>signature.replace(/<[^>]+>/g, '')\<close>: a \<^verbatim>\<open><\<close>, one or more characters other than
  \<^verbatim>\<open>>\<close>, and a \<^verbatim>\<open>>\<close> are removed.
\<close>

function strip_tags :: "string \<Rightarrow> string" where
  "strip_tags [] = []"
| "strip_tags (c # cs) =
     (if c = CHR ''<'' \<and> takeWhile (\<lambda>x. x \<noteq> CHR ''>'') cs \<noteq> []
          \<and> dropWhile (\<lambda>x. x \<noteq> CHR ''>'') cs \<noteq> []
      then strip_tags (tl (dropWhile (\<lambda>x. x \<noteq> CHR ''>'') cs))
      else c # strip_tags cs)"
  by pat_completeness auto
termination
  by (relation "measure length")
     (auto simp: less_Suc_eq_le intro: le_trans [OF diff_le_self length_dropWhile_le])

text \<open>The body of \<^verbatim>\<open>forEach\<close>, from index \<open>i\<close> on.\<close>

fun render_headers :: "string \<Rightarrow> string list \<Rightarrow> nat \<Rightarrow> row \<Rightarrow> string option" where
  "render_headers out [] i r = Some out"
| "render_headers out (h # hs) i r =
     (case replace_regex_g (placeholder_source (trim h)) (cell_text r i) out of
        None \<Rightarrow> None
      | Some out' \<Rightarrow> render_headers out' hs (Suc i) r)"

definition renderWithRow :: "string \<Rightarrow> string list \<Rightarrow> row \<Rightarrow> string option \<Rightarrow> string option" where
  "renderWithRow content headers r signature =
     map_option
       (\<lambda>out. if truthy signature then out @ [LF, LF] @ strip_tags (the signature) else out)
       (render_headers content headers 0 r)"

text \<open>
  The words of the specification. A placeholder is the name between double round
  brackets. Replacing every literal occurrence of a separator is splitting the text at
  the separator (from the left, a match starting where the one before ended) and joining
  the pieces with the value, as JavaScript's \<^verbatim>\<open>s.split(sep).join(value)\<close> does for a
  separator that is not empty.
\<close>

definition placeholder :: "string \<Rightarrow> string" where
  "placeholder name = ''(('' @ name @ ''))''"

function split_on :: "string \<Rightarrow> string \<Rightarrow> string list" where
  "split_on sep [] = [[]]"
| "split_on sep (c # cs) =
     (if sep \<noteq> [] \<and> prefix sep (c # cs) then [] # split_on sep (drop (length sep) (c # cs))
      else (case split_on sep cs of [] \<Rightarrow> [[c]] | g # gs \<Rightarrow> (c # g) # gs))"
  by pat_completeness auto
termination
  by (relation "measure (\<lambda>(sep, s). length s)") (auto simp: neq_Nil_conv)

text \<open>
  The renderer as the specification words it, with the header's text trimmed: for the
  header at index \<open>i\<close>, every literal occurrence of its placeholder is replaced with the
  row's value at \<open>i\<close>, the headers taken in order.
\<close>

fun render_spec :: "string \<Rightarrow> string list \<Rightarrow> nat \<Rightarrow> row \<Rightarrow> string" where
  "render_spec out [] i r = out"
| "render_spec out (h # hs) i r =
     render_spec (join_str (cell_text r i) (split_on (placeholder (trim h)) out)) hs (Suc i) r"

text \<open>
  A value that \<^verbatim>\<open>String.prototype.replace\<close> copies as it is: it has none of the four
  patterns \<^verbatim>\<open>$$\<close>, \<^verbatim>\<open>$&\<close>, \<^verbatim>\<open>$`\<close> and \<^verbatim>\<open>$'\<close> that stand for something else in a
  replacement template. A dollar sign before anything else is allowed.
\<close>

definition plain :: "string \<Rightarrow> bool" where
  "plain v =
     (\<not> sublist ''$$'' v \<and> \<not> sublist ''$&'' v
      \<and> \<not> sublist [CHR ''$'', CHR 0x60] v \<and> \<not> sublist [CHR ''$'', CHR 0x27] v)"

text \<open>
  Two texts overlap when an occurrence of the one and an occurrence of the other can share
  a character of some text: from some position of the one on, the two agree as far as
  both go (an end piece of the one is a start piece of the other, or the one lies within
  the other).
\<close>

definition overlap :: "string \<Rightarrow> string \<Rightarrow> bool" where
  "overlap p q =
     ((\<exists>s\<in>set (suffixes q). s \<noteq> [] \<and> (prefix s p \<or> prefix p s))
      \<or> (\<exists>s\<in>set (suffixes p). s \<noteq> [] \<and> (prefix s q \<or> prefix q s)))"

definition bracket_free :: "string \<Rightarrow> bool" where
  "bracket_free n = (CHR ''('' \<notin> set n \<and> CHR '')'' \<notin> set n)"

text \<open>
  A template as the specification writes it: a sequence of literal texts and of
  placeholders, \<open>shown\<close> being its text. It is well formed when no literal has a double
  opening bracket or ends with an opening bracket, and no placeholder's name has a round
  bracket; single brackets in a literal, as in \<^verbatim>\<open>Hi (dear) ((Name))\<close>, are allowed.
\<close>

datatype piece = Lit string | Hole string

fun shown :: "piece list \<Rightarrow> string" where
  "shown [] = []"
| "shown (Lit l # ps) = l @ shown ps"
| "shown (Hole n # ps) = placeholder n @ shown ps"

definition literal_ok :: "string \<Rightarrow> bool" where
  "literal_ok l = (\<not> sublist ''(('' l \<and> \<not> suffix ''('' l)"

fun well_formed :: "piece \<Rightarrow> bool" where
  "well_formed (Lit l) = literal_ok l"
| "well_formed (Hole n) = bracket_free n"

text \<open>
  A header name whose first round bracket, if it has one, is an opening bracket, as in
  \<^verbatim>\<open>Phone (mobile)\<close>.
\<close>

definition key_ok :: "string \<Rightarrow> bool" where
  "key_ok k =
     (case dropWhile (\<lambda>c. c \<noteq> CHR ''('' \<and> c \<noteq> CHR '')'') k of
        [] \<Rightarrow> True
      | c # cs \<Rightarrow> c = CHR ''('')"

text \<open>
  The value for a name: the row's cell under the first header whose trimmed text is the
  name (the headers counted from index \<open>i\<close>), or nothing when no header has that text. A
  rendered template has, for each placeholder, the value for its name when there is one,
  and the placeholder itself otherwise.
\<close>

fun value_of :: "string list \<Rightarrow> nat \<Rightarrow> row \<Rightarrow> string \<Rightarrow> string option" where
  "value_of [] i r n = None"
| "value_of (h # hs) i r n = (if trim h = n then Some (cell_text r i) else value_of hs (Suc i) r n)"

fun fill :: "string list \<Rightarrow> nat \<Rightarrow> row \<Rightarrow> piece \<Rightarrow> piece" where
  "fill hs i r (Lit l) = Lit l"
| "fill hs i r (Hole n) = (case value_of hs i r n of Some v \<Rightarrow> Lit v | None \<Rightarrow> Hole n)"

subsection \<open>Message builder: \<^verbatim>\<open>buildRawEmail\<close>\<close>

text \<open>
  \<^verbatim>\<open>Buffer.prototype.toString('base64')\<close>: three bytes give four characters of the
  alphabet, six bits each, and the last group is padded with \<^verbatim>\<open>=\<close>. A byte is a
  character.
\<close>

definition b64_alphabet :: string where
  "b64_alphabet = ''ABCDEFGHIJKLMNOPQRSTUVWXYZabcdefghijklmnopqrstuvwxyz0123456789+/''"

definition b64_char :: "nat \<Rightarrow> char" where
  "b64_char n = b64_alphabet ! (n mod 64)"

fun base64 :: "string \<Rightarrow> string" where
  "base64 [] = []"
| "base64 [a] =
     [b64_char (of_char a div 4), b64_char (of_char a mod 4 * 16), CHR ''='', CHR ''='']"
| "base64 [a, b] =
     [b64_char (of_char a div 4), b64_char (of_char a mod 4 * 16 + of_char b div 16),
      b64_char (of_char b mod 16 * 4), CHR ''='']"
| "base64 (a # b # c # bs) =
     [b64_char (of_char a div 4), b64_char (of_char a mod 4 * 16 + of_char b div 16),
      b64_char (of_char b mod 16 * 4 + of_char c div 64), b64_char (of_char c mod 64)]
       @ base64 bs"

text \<open>
  \<^verbatim>\<open>const wrap76 = (b64) => b64.replace(/.{1,76}/g, (m) => m + '\r\n');\<close> The dot matches
  every character but a line terminator, so each run of up to 76 such characters (the
  first and up to 75 more) gets a line break after it.
\<close>

definition line_terminator :: "char \<Rightarrow> bool" where
  "line_terminator c = (c = LF \<or> c = CR)"

function wrap76 :: "string \<Rightarrow> string" where
  "wrap76 [] = []"
| "wrap76 (c # cs) =
     (if line_terminator c then c # wrap76 cs
      else c # takeWhile (\<lambda>x. \<not> line_terminator x) (take 75 cs) @ CRLF
             @ wrap76 (drop (length (takeWhile (\<lambda>x. \<not> line_terminator x) (take 75 cs))) cs))"
  by pat_completeness auto
termination
  by (relation "measure length") (auto simp: less_Suc_eq_le)

text \<open>
  What the builder takes from outside: the random boundary token
  (\<^verbatim>\<open>Math.random().toString(36).slice(2)\<close>), the file system (\<open>None\<close> when
  \<^verbatim>\<open>fs.readFileSync\<close> throws), \<^verbatim>\<open>path.basename\<close>, and \<^verbatim>\<open>mime.lookup\<close> (\<open>None\<close> when it
  returns \<^verbatim>\<open>false\<close>).
\<close>

record mail_env =
  boundary_token :: string
  readFileSync :: "string \<Rightarrow> string option"
  basename :: "string \<Rightarrow> string"
  mime_lookup :: "string \<Rightarrow> string option"

text \<open>The argument object: \<open>body_text\<close> and \<open>attachments\<close> may be absent.\<close>

record email =
  from_addr :: "string option"
  to_addr :: string
  subject :: string
  body_text :: "string option"
  attachments :: "string list option"

text \<open>
  \<^verbatim>\<open>
  function buildRawEmail({ from, to, subject, text, html, attachments }) {
    const boundary = 'mixed_' + Math.random().toString(36).slice(2);
    const wrap76 = (b64) => b64.replace(/.{1,76}/g, (m) => m + '\r\n');
    let headers = [];
    if (from) headers.push(`From: ${from}`);
    headers.push(`To: ${to}`);
    headers.push(`Subject: ${subject}`);
    headers.push('MIME-Version: 1.0');
    if (attachments && attachments.length) {
      headers.push(`Content-Type: multipart/mixed; boundary="${boundary}"`);
      let body = '';
      body += `--${boundary}\r\n`;
      body += `Content-Type: text/plain; charset="UTF-8"\r\n`;
      body += `Content-Transfer-Encoding: 7bit\r\n\r\n`;
      body += (text || '') + `\r\n`;
      for (const p of attachments) {
        try {
          const data = fs.readFileSync(p);
          const filename = path.basename(p);
          const ctype = mime.lookup(filename) || 'application/octet-stream';
          body += `--${boundary}\r\n`;
          body += `Content-Type: ${ctype}; name="${filename}"\r\n`;
          body += `Content-Transfer-Encoding: base64\r\n`;
          body += `Content-Disposition: attachment; filename="${filename}"\r\n\r\n`;
          body += wrap76(data.toString('base64')) + `\r\n`;
        } catch (e) {
          logEvent('error', 'Attachment read failed', { path: p, error: e.message });
        }
      }
      body += `--${boundary}--\r\n`;
      return headers.join('\r\n') + '\r\n\r\n' + body;
    }
    headers.push('Content-Type: text/plain; charset="UTF-8"');
    headers.push('Content-Transfer-Encoding: 7bit');
    return headers.join('\r\n') + '\r\n\r\n' + (text || '');
  }
  \<close>
  The log line of a failed read is not part of the result and is left out.
\<close>

definition boundary :: "mail_env \<Rightarrow> string" where
  "boundary env = ''mixed_'' @ boundary_token env"

definition text_or_empty :: "string option \<Rightarrow> string" where
  "text_or_empty t = (if truthy t then the t else [])"

text \<open>One round of the loop over the attachments: what it adds to \<open>body\<close>.\<close>

definition attachment_part :: "mail_env \<Rightarrow> string \<Rightarrow> string" where
  "attachment_part env p =
     (case readFileSync env p of
        None \<Rightarrow> []
      | Some data \<Rightarrow>
          (let filename = basename env p;
               ctype = (case mime_lookup env filename of
                          Some t \<Rightarrow> if t = [] then ''application/octet-stream'' else t
                        | None \<Rightarrow> ''application/octet-stream'')
           in ''--'' @ boundary env @ CRLF
                @ ''Content-Type: '' @ ctype @ ''; name='' @ [dquote] @ filename @ [dquote] @ CRLF
                @ ''Content-Transfer-Encoding: base64'' @ CRLF
                @ ''Content-Disposition: attachment; filename='' @ [dquote] @ filename @ [dquote]
                @ CRLF @ CRLF
                @ wrap76 (base64 data) @ CRLF))"

definition first_headers :: "email \<Rightarrow> string list" where
  "first_headers e =
     (if truthy (from_addr e) then [''From: '' @ the (from_addr e)] else [])
       @ [''To: '' @ to_addr e, ''Subject: '' @ subject e, ''MIME-Version: 1.0'']"

definition buildRawEmail :: "mail_env \<Rightarrow> email \<Rightarrow> string" where
  "buildRawEmail env e =
     (case attachments e of
        Some (p # ps) \<Rightarrow>
          join_str CRLF
              (first_headers e
                 @ [''Content-Type: multipart/mixed; boundary='' @ [dquote] @ boundary env @ [dquote]])
            @ CRLF @ CRLF
            @ ''--'' @ boundary env @ CRLF
            @ ''Content-Type: text/plain; charset='' @ [dquote] @ ''UTF-8'' @ [dquote] @ CRLF
            @ ''Content-Transfer-Encoding: 7bit'' @ CRLF @ CRLF
            @ text_or_empty (body_text e) @ CRLF
            @ concat (map (attachment_part env) (p # ps))
            @ ''--'' @ boundary env @ ''--'' @ CRLF
      | _ \<Rightarrow>
          join_str CRLF
              (first_headers e
                 @ [''Content-Type: text/plain; charset='' @ [dquote] @ ''UTF-8'' @ [dquote],
                    ''Content-Transfer-Encoding: 7bit''])
            @ CRLF @ CRLF @ text_or_empty (body_text e))"

text \<open>
  \<^verbatim>\<open>
  function toBase64Url(str) {
    return Buffer.from(str).toString('base64').replace(/\+/g, '-').replace(/\//g, '_').replace(/=+$/, '');
  }
  \<close>
  \<^verbatim>\<open>Buffer.from(str)\<close> is the UTF-8 encoding of the string: one byte for a code unit below
  128, two bytes for a code unit from 128 to 255.
\<close>

definition utf8 :: "string \<Rightarrow> string" where
  "utf8 str =
     concat (map (\<lambda>c. if (of_char c :: nat) < 128 then [c]
                       else [char_of (192 + (of_char c :: nat) div 64),
                             char_of (128 + (of_char c :: nat) mod 64)]) str)"

definition toBase64Url :: "string \<Rightarrow> string" where
  "toBase64Url str =
     rev (dropWhile (\<lambda>c. c = CHR ''='')
       (rev (map (\<lambda>c. if c = CHR ''+'' then CHR ''-'' else if c = CHR ''/'' then CHR ''_'' else c)
               (base64 (utf8 str)))))"

text \<open>
  The words of the specification's testable property of the builder: the marker of an
  attachment part, how every boundary delimiter line of this builder starts, and the
  parameter that names the boundary in a multipart header. A message is free of a
  marker when the marker occurs in none of the texts the builder is given to copy:
  sender, recipient, subject, body, boundary token, and the base name and MIME type of
  every attachment.
\<close>

definition attachment_marker :: string where
  "attachment_marker = ''Content-Disposition: attachment''"

definition delimiter_marker :: string where
  "delimiter_marker = ''--mixed_''"

definition boundary_parameter :: string where
  "boundary_parameter = ''boundary=''"

definition marker_free :: "string \<Rightarrow> mail_env \<Rightarrow> email \<Rightarrow> bool" where
  "marker_free m env e =
     (\<not> sublist m (text_or_empty (from_addr e)) \<and> \<not> sublist m (to_addr e)
      \<and> \<not> sublist m (subject e) \<and> \<not> sublist m (text_or_empty (body_text e))
      \<and> \<not> sublist m (boundary_token env)
      \<and> (\<forall>p\<in>set (case attachments e of Some ps \<Rightarrow> ps | None \<Rightarrow> []).
            \<not> sublist m (basename env p)
            \<and> (\<forall>t. mime_lookup env (basename env p) = Some t \<longrightarrow> \<not> sublist m t)))"

text \<open>
  A small world for examples: two files that can be read, with their base names and one
  known MIME type.
\<close>

definition demo_env :: mail_env where
  "demo_env =
     \<lparr>boundary_token = ''k3'',
      readFileSync = (\<lambda>p. if p = ''/tmp/a.txt'' then Some ''hi''
                          else if p = ''/tmp/b.bin'' then Some ''Man'' else None),
      basename = (\<lambda>p. drop 5 p),
      mime_lookup = (\<lambda>f. if f = ''a.txt'' then Some ''text/plain'' else None)\<rparr>"

subsection \<open>Sheet status writer: \<^verbatim>\<open>ensureStatusColumn\<close> and \<^verbatim>\<open>updateSheetStatus\<close>\<close>

text \<open>\<^verbatim>\<open>xs.findIndex(P)\<close>: the first index at which \<open>P\<close> holds, or \<open>-1\<close>.\<close>

fun findIndex :: "('a \<Rightarrow> bool) \<Rightarrow> 'a list \<Rightarrow> int" where
  "findIndex P [] = - 1"
| "findIndex P (x # xs) =
     (if P x then 0 else (let i = findIndex P xs in if i < 0 then - 1 else i + 1))"

text \<open>
  \<^verbatim>\<open>
  function columnIndexToA1(n) {
    let s = '';
    while (n >= 0) {
      s = String.fromCharCode((n % 26) + 65) + s;
      n = Math.floor(n / 26) - 1;
    }
    return s;
  }
  \<close>
  The character with code \<open>n % 26 + 65\<close> is the letter at place \<open>n % 26\<close> of the alphabet.
\<close>

function columnIndexToA1_loop :: "int \<Rightarrow> string \<Rightarrow> string" where
  "columnIndexToA1_loop n s =
     (if n \<ge> 0
      then columnIndexToA1_loop (n div 26 - 1) (''ABCDEFGHIJKLMNOPQRSTUVWXYZ'' ! nat (n mod 26) # s)
      else s)"
  by pat_completeness auto
termination
  by (relation "measure (\<lambda>(n, s). nat (n + 1))") auto

definition columnIndexToA1 :: "int \<Rightarrow> string" where
  "columnIndexToA1 n = columnIndexToA1_loop n []"

text \<open>
  A call of \<^verbatim>\<open>sheetsService.spreadsheets.values.update\<close>, and the sheets service as the
  engine sees it: whether such a call resolves (\<open>True\<close>) or throws.
\<close>

record sheet_update =
  spreadsheetId :: string
  range :: string
  rows_written :: "string list list"

type_synonym sheets_service = "sheet_update \<Rightarrow> bool"

text \<open>
  \<^verbatim>\<open>
  async function ensureStatusColumn(sheetId, sheetTitle, headers) {
    let idx = headers.findIndex(h => String(h).trim().toLowerCase() === 'status');
    if (idx === -1) {
      // add Status header at the end
      headers.push('Status');
      const range = `${sheetTitle}!A1:${columnIndexToA1(headers.length - 1)}1`;
      try {
        await sheetsService.spreadsheets.values.update({
          spreadsheetId: sheetId, range, valueInputOption: 'RAW',
          requestBody: { values: [headers] }
        });
        idx = headers.length - 1;
      } catch (e) {
        logEvent('error', 'Failed to ensure Status column (insufficient scope?)', ...);
        return -1; // signal we cannot write
      }
    }
    return idx;
  }
  \<close>
  The function changes the caller's \<open>headers\<close> array in place; the model returns the
  index together with the array as the call leaves it and the calls made to the service.
\<close>

definition is_status_header :: "string \<Rightarrow> bool" where
  "is_status_header h = (toLowerCase (trim h) = ''status'')"

record status_column =
  column_index :: int
  headers_after :: "string list"
  updates :: "sheet_update list"

definition ensureStatusColumn ::
    "sheets_service \<Rightarrow> string \<Rightarrow> string \<Rightarrow> string list \<Rightarrow> status_column" where
  "ensureStatusColumn service sheetId sheetTitle headers =
     (let idx = findIndex is_status_header headers in
      if idx = - 1 then
        (let pushed = headers @ [''Status''];
             request = \<lparr>spreadsheetId = sheetId,
                        range = sheetTitle @ ''!A1:'' @ columnIndexToA1 (int (length pushed) - 1) @ ''1'',
                        rows_written = [pushed]\<rparr>
         in if service request
            then \<lparr>column_index = int (length pushed) - 1, headers_after = pushed, updates = [request]\<rparr>
            else \<lparr>column_index = - 1, headers_after = pushed, updates = [request]\<rparr>)
      else \<lparr>column_index = idx, headers_after = headers, updates = []\<rparr>)"

text \<open>A natural number in decimal, as a template literal prints it.\<close>

function decimal :: "nat \<Rightarrow> string" where
  "decimal n = (if n < 10 then [''0123456789'' ! n] else decimal (n div 10) @ [''0123456789'' ! (n mod 10)])"
  by pat_completeness auto
termination
  by (relation "measure id") auto

text \<open>
  \<^verbatim>\<open>
  async function updateSheetStatus(sheetId, sheetTitle, headers, rowIndexZeroBased, statusText) {
    await ensureServices();
    // Resolve sheetTitle if missing
    let title = sheetTitle;
    if (!title) { ... }
    const col = await ensureStatusColumn(sheetId, title, headers);
    const a1col = columnIndexToA1(col);
    const rowA1 = rowIndexZeroBased + 2; // +1 header, +1 1-indexed
    const range = `${title}!${a1col}${rowA1}`;
    try {
      await sheetsService.spreadsheets.values.update({
        spreadsheetId: sheetId, range, valueInputOption: 'RAW',
        requestBody: { values: [[statusText]] }
      });
      return { success: true };
    } catch (error) {
      logEvent('error', 'Sheets status update failed', ...);
      return { success: false, error: error.message };
    }
  }
  \<close>
  The campaign runner calls it with the services in place and with a title, so the two
  first steps do nothing. The model returns whether the cell was written, the header list
  as the call leaves it, and the calls made to the service.
\<close>

record status_write =
  written :: bool
  headers_left :: "string list"
  requests :: "sheet_update list"

definition updateSheetStatus ::
    "sheets_service \<Rightarrow> string \<Rightarrow> string \<Rightarrow> string list \<Rightarrow> nat \<Rightarrow> string \<Rightarrow> status_write" where
  "updateSheetStatus service sheetId title headers rowIndexZeroBased statusText =
     (let col = ensureStatusColumn service sheetId title headers;
          request = \<lparr>spreadsheetId = sheetId,
                     range = title @ ''!'' @ columnIndexToA1 (column_index col)
                               @ decimal (rowIndexZeroBased + 2),
                     rows_written = [[statusText]]\<rparr>
      in \<lparr>written = service request, headers_left = headers_after col,
          requests = updates col @ [request]\<rparr>)"

subsection \<open>Campaign runner: \<^verbatim>\<open>executeCampaignRun\<close>\<close>

text \<open>
  \<^verbatim>\<open>
  function findEmailColumnIndex(headers) {
    if (!headers) return -1;
    const lower = headers.map(h => String(h).toLowerCase());
    let idx = lower.findIndex(h => h.includes('email'));
    return idx;
  }
  \<close>
\<close>

definition findEmailColumnIndex :: "string list \<Rightarrow> int" where
  "findEmailColumnIndex headers = findIndex (\<lambda>h. includes_str h ''email'') (map toLowerCase headers)"

text \<open>The parameters of a run. \<open>delaySeconds\<close> is \<open>None\<close> when absent or \<^verbatim>\<open>null\<close>.\<close>

record params =
  sheetId :: string
  sheetTitle :: "string option"
  mail_subject :: string
  content :: string
  sender :: "string option"
  attachmentsPaths :: "string list option"
  delaySeconds :: "int option"
  useSignature :: bool

text \<open>
  What a run meets outside the engine: whether \<^verbatim>\<open>ensureServices\<close> finds credentials and a
  token; what \<^verbatim>\<open>spreadsheets.values.get\<close> returns for a sheet and range (an error when it
  throws); what \<^verbatim>\<open>getPrimarySignature\<close> returns; whether the mail provider accepts the
  message sent for the row at a given index (\<open>Some\<close> error when the send throws); the
  sheets service for the status writes; the value \<^verbatim>\<open>Math.random()\<close> returns for the
  jitter after the send of the row at a given index; and the builder's environment for
  that row, with its boundary token.
\<close>

record world =
  authenticated :: bool
  values_get :: "string \<Rightarrow> string \<Rightarrow> error + row list"
  primary_signature :: "error + string"
  gmail_send :: "nat \<Rightarrow> string \<Rightarrow> error option"
  sheets_update :: sheets_service
  random_draw :: "nat \<Rightarrow> real"
  mail_world :: "nat \<Rightarrow> mail_env"

text \<open>What a run does to the outside, in order.\<close>

datatype event =
    GmailSend nat string string "error option"
  | SheetUpdate sheet_update
  | Sleep int
  | Telemetry nat

text \<open>\<^verbatim>\<open>(delaySeconds || 5) * 1000 + jitter\<close>, with \<^verbatim>\<open>jitter = Math.floor(Math.random() * 2000)\<close>\<close>

definition delay_or_default :: "int option \<Rightarrow> int" where
  "delay_or_default d = (case d of None \<Rightarrow> 5 | Some n \<Rightarrow> if n = 0 then 5 else n)"

definition jitter :: "real \<Rightarrow> int" where
  "jitter r = \<lfloor>r * 2000\<rfloor>"

definition pause_ms :: "int option \<Rightarrow> real \<Rightarrow> int" where
  "pause_ms d r = delay_or_default d * 1000 + jitter r"

text \<open>
  \<^verbatim>\<open>
  async function executeCampaignRun(params) {
    await ensureServices();
    const { sheetId, sheetTitle, subject, content, from, attachmentsPaths, delaySeconds, useSignature } = params;
    const range = sheetTitle ? `${sheetTitle}!A:Z` : 'A:Z';
    const res = await sheetsService.spreadsheets.values.get({ spreadsheetId: sheetId, range });
    const values = res.data.values || [];
    if (!values.length) throw new Error('No data found in sheet');
    const headers = values[0];
    const rows = values.slice(1);
    const emailIdx = findEmailColumnIndex(headers);
    if (emailIdx < 0) throw new Error('No Email column found');
    const signature = useSignature ? await getPrimarySignature() : '';
    for (let i = 0; i < rows.length; i++) {
      const row = rows[i];
      const to = row[emailIdx];
      if (!to) continue;
      const text = renderWithRow(content, headers, row, signature);
      const rawStr = buildRawEmail({ from, to, subject, text, attachments: attachmentsPaths || [] });
      await gmailService.users.messages.send({ userId: 'me', requestBody: { raw: toBase64Url(rawStr) } });
      try {
        await updateSheetStatus(sheetId, sheetTitle || 'Sheet1', headers, i, 'SENT');
      } catch (_) {}
      const jitter = Math.floor(Math.random() * 2000);
      await new Promise(r => setTimeout(r, (delaySeconds || 5) * 1000 + jitter));
    }
    trackTelemetry('campaign_run', { recipients: rows.length });
  }
  \<close>
  The loop, from the row at index \<open>i\<close> on: the events of the rows, and the error that
  ended the loop if one did. The send is not inside a \<^verbatim>\<open>try\<close>: when it throws, the
  function is left with that error. \<open>headers\<close> is the array that \<open>updateSheetStatus\<close>
  may have extended.
\<close>

fun campaign_rows ::
    "world \<Rightarrow> params \<Rightarrow> nat \<Rightarrow> string \<Rightarrow> nat \<Rightarrow> row list \<Rightarrow> string list
       \<Rightarrow> event list \<times> error option" where
  "campaign_rows w p emailIdx signature i [] headers = ([], None)"
| "campaign_rows w p emailIdx signature i (r # rows) headers =
     (if \<not> truthy (cell r emailIdx) then campaign_rows w p emailIdx signature (Suc i) rows headers
      else
        (case renderWithRow (content p) headers r (Some signature) of
           None \<Rightarrow> ([], Some (Error ''Invalid regular expression''))
         | Some body \<Rightarrow>
             (let rawStr = buildRawEmail (mail_world w i)
                             \<lparr>from_addr = sender p, to_addr = cell_text r emailIdx,
                              subject = mail_subject p, body_text = Some body,
                              attachments = Some (case attachmentsPaths p of Some ps \<Rightarrow> ps | None \<Rightarrow> [])\<rparr>;
                  result = gmail_send w i (toBase64Url rawStr);
                  sent = GmailSend i (cell_text r emailIdx) (toBase64Url rawStr) result
              in case result of
                   Some e \<Rightarrow> ([sent], Some e)
                 | None \<Rightarrow>
                     (let status = updateSheetStatus (sheets_update w) (sheetId p)
                                     (if truthy (sheetTitle p) then the (sheetTitle p) else ''Sheet1'')
                                     headers i ''SENT'';
                          rest = campaign_rows w p emailIdx signature (Suc i) rows (headers_left status)
                      in (sent # map SheetUpdate (requests status)
                            @ Sleep (pause_ms (delaySeconds p) (random_draw w i)) # fst rest,
                          snd rest)))))"

definition executeCampaignRun :: "world \<Rightarrow> params \<Rightarrow> event list \<times> error option" where
  "executeCampaignRun w p =
     (if \<not> authenticated w then ([], Some (Error ''Not authenticated''))
      else
        (case values_get w (sheetId p)
                (if truthy (sheetTitle p) then the (sheetTitle p) @ ''!A:Z'' else ''A:Z'') of
           Inl e \<Rightarrow> ([], Some e)
         | Inr [] \<Rightarrow> ([], Some (Error ''No data found in sheet''))
         | Inr (headers # rows) \<Rightarrow>
             (let emailIdx = findEmailColumnIndex headers in
              if emailIdx < 0 then ([], Some (Error ''No Email column found''))
              else
                (case (if useSignature p then primary_signature w else Inr []) of
                   Inl e \<Rightarrow> ([], Some e)
                 | Inr signature \<Rightarrow>
                     (case campaign_rows w p (nat emailIdx) signature 0 rows headers of
                        (events, Some e) \<Rightarrow> (events, Some e)
                      | (events, None) \<Rightarrow> (events @ [Telemetry (length rows)], None))))))"

text \<open>
  Reading a run's events: the rows for which a send was attempted, the rows whose send
  the provider accepted, and the pace of a run, which is its accepted sends and its
  pauses in the order they happened.
\<close>

fun attempted :: "event list \<Rightarrow> nat list" where
  "attempted [] = []"
| "attempted (GmailSend i to raw result # es) = i # attempted es"
| "attempted (e # es) = attempted es"

fun delivered :: "event list \<Rightarrow> nat list" where
  "delivered [] = []"
| "delivered (GmailSend i to raw None # es) = i # delivered es"
| "delivered (e # es) = delivered es"

datatype pace = Delivered nat | Paused int

fun pace_of :: "event list \<Rightarrow> pace list" where
  "pace_of [] = []"
| "pace_of (GmailSend i to raw None # es) = Delivered i # pace_of es"
| "pace_of (Sleep ms # es) = Paused ms # pace_of es"
| "pace_of (e # es) = pace_of es"

text \<open>
  A world for examples: a sheet of three rows with recipients, a provider that rejects the
  message of the second row (index 1) and accepts every other one, a sheets service that
  accepts every write, and \<^verbatim>\<open>Math.random()\<close> returning one half.
\<close>

definition demo_world :: world where
  "demo_world =
     \<lparr>authenticated = True,
      values_get = (\<lambda>sid rng. Inr [[''Name'', ''Email''], [''Ann'', ''ann@x.com''],
                                   [''Bo'', ''bo@x.com''], [''Cy'', ''cy@x.com'']]),
      primary_signature = Inr [],
      gmail_send = (\<lambda>i raw. if i = 1 then Some (Error ''quota exceeded'') else None),
      sheets_update = (\<lambda>request. True),
      random_draw = (\<lambda>i. 1 / 2),
      mail_world = (\<lambda>i. demo_env)\<rparr>"

definition demo_params :: params where
  "demo_params =
     \<lparr>sheetId = ''sheet1'', sheetTitle = None, mail_subject = ''Hello'', content = ''Hi ((Name))'',
      sender = None, attachmentsPaths = None, delaySeconds = Some 0, useSignature = False\<rparr>"

text \<open>The same world with a provider that accepts every message.\<close>

definition calm_world :: world where
  "calm_world = demo_world\<lparr>gmail_send := (\<lambda>i raw. None)\<rparr>"

text \<open>The pace of one accepted send: the send, then the pause computed for it.\<close>

definition paced :: "world \<Rightarrow> params \<Rightarrow> nat \<Rightarrow> pace list" where
  "paced w p i = [Delivered i, Paused (pause_ms (delaySeconds p) (random_draw w i))]"

subsection \<open>Scheduler: \<^verbatim>\<open>scheduleOneTimeCampaign\<close> and \<^verbatim>\<open>cancelScheduledJob\<close>\<close>

text \<open>
  The scheduler's state: the registry \<^verbatim>\<open>global.__rtxScheduledJobs\<close> (a map from job id
  to job), the timeouts that are set and have not fired or been cleared (by handle, with
  the delay and with the id and the parameters that the callback closed over), the next
  handle \<^verbatim>\<open>setTimeout\<close> will return, the callbacks that have started a run and are
  waiting for it (\<^verbatim>\<open>await executeCampaignRun(params)\<close>), and the calls of the campaign
  runner made so far.
\<close>

record job =
  job_id :: string
  job_type :: string
  job_startAt :: int
  job_params :: params
  timer :: nat

record scheduler =
  jobs :: "string \<rightharpoonup> job"
  timers :: "nat \<rightharpoonup> int \<times> string \<times> params"
  next_timer :: nat
  running :: "nat \<rightharpoonup> string \<times> params"
  invoked :: "(string \<times> params) list"

definition no_jobs :: scheduler where
  "no_jobs = \<lparr>jobs = Map.empty, timers = Map.empty, next_timer = 0, running = Map.empty, invoked = []\<rparr>"

text \<open>
  \<^verbatim>\<open>
  function scheduleOneTimeCampaign(params) {
    const id = 'job_' + Date.now() + '_' + Math.random().toString(36).slice(2);
    const startAt = new Date(params.startAt).getTime();
    const now = Date.now();
    const ms = Math.max(0, startAt - now);
    const timer = setTimeout(async () => {
      try { await executeCampaignRun(params); }
      catch (e) { console.error('Scheduled run failed:', e); logEvent('error', 'Scheduled run failed', ...); }
      finally { getJobsMap().delete(id); }
    }, ms);
    getJobsMap().set(id, { id, type: 'one-time', startAt, params, timer });
    trackTelemetry('campaign_scheduled', { startAt });
    return { id, startAt };
  }
  \<close>
  The id that the clock and the random source give (\<open>jid\<close>), the clock's \<open>now\<close> and the start time
  read from \<^verbatim>\<open>params.startAt\<close> (both in milliseconds) are arguments.
\<close>

definition scheduleOneTimeCampaign ::
    "string \<Rightarrow> int \<Rightarrow> int \<Rightarrow> params \<Rightarrow> scheduler \<Rightarrow> (string \<times> int) \<times> scheduler" where
  "scheduleOneTimeCampaign jid now startAt p s =
     (let ms = max 0 (startAt - now);
          handle = next_timer s
      in ((jid, startAt),
          s\<lparr>timers := (timers s)(handle \<mapsto> (ms, jid, p)),
            next_timer := Suc handle,
            jobs := (jobs s)(jid \<mapsto> \<lparr>job_id = jid, job_type = ''one-time'', job_startAt = startAt,
                                     job_params = p, timer = handle\<rparr>)\<rparr>))"

text \<open>
  The timeout with the given handle fires: the callback starts and calls the campaign
  runner. A handle that is not set (cleared, or fired before) does nothing.
\<close>

definition timer_fires :: "nat \<Rightarrow> scheduler \<Rightarrow> scheduler" where
  "timer_fires handle s =
     (case timers s handle of
        None \<Rightarrow> s
      | Some (ms, jid, p) \<Rightarrow>
          s\<lparr>timers := (timers s)(handle := None),
            running := (running s)(handle \<mapsto> (jid, p)),
            invoked := invoked s @ [(jid, p)]\<rparr>)"

text \<open>
  The run that the callback waits for resolves or rejects; either way the
  \<^verbatim>\<open>finally\<close> block deletes the job's id from the registry.
\<close>

definition run_settles :: "nat \<Rightarrow> scheduler \<Rightarrow> scheduler" where
  "run_settles handle s =
     (case running s handle of
        None \<Rightarrow> s
      | Some (jid, p) \<Rightarrow> s\<lparr>running := (running s)(handle := None), jobs := (jobs s)(jid := None)\<rparr>)"

text \<open>
  \<^verbatim>\<open>
  function cancelScheduledJob(id) {
    const jobs = getJobsMap();
    const job = jobs.get(id);
    if (!job) return false;
    clearTimeout(job.timer);
    jobs.delete(id);
    return true;
  }
  \<close>
\<close>

definition cancelScheduledJob :: "string \<Rightarrow> scheduler \<Rightarrow> bool \<times> scheduler" where
  "cancelScheduledJob jid s =
     (case jobs s jid of
        None \<Rightarrow> (False, s)
      | Some job \<Rightarrow> (True, s\<lparr>timers := (timers s)(timer job := None), jobs := (jobs s)(jid := None)\<rparr>))"

text \<open>
  What can happen to the scheduler, one thing at a time (the process is single-threaded):
  a campaign is scheduled, a timeout fires, a run settles, a job is cancelled.
\<close>

datatype sched_event =
    Schedule string int int params
  | TimerFires nat
  | RunSettles nat
  | Cancel string

fun sched_step :: "scheduler \<Rightarrow> sched_event \<Rightarrow> scheduler" where
  "sched_step s (Schedule jid now startAt p) = snd (scheduleOneTimeCampaign jid now startAt p s)"
| "sched_step s (TimerFires handle) = timer_fires handle s"
| "sched_step s (RunSettles handle) = run_settles handle s"
| "sched_step s (Cancel jid) = snd (cancelScheduledJob jid s)"

definition replay :: "scheduler \<Rightarrow> sched_event list \<Rightarrow> scheduler" where
  "replay s es = foldl sched_step s es"

text \<open>The ids that a history schedules, and the jobs for which the runner was called.\<close>

fun scheduled_ids :: "sched_event list \<Rightarrow> string list" where
  "scheduled_ids [] = []"
| "scheduled_ids (Schedule jid now startAt p # es) = jid # scheduled_ids es"
| "scheduled_ids (e # es) = scheduled_ids es"

definition invoked_ids :: "scheduler \<Rightarrow> string set" where
  "invoked_ids s = fst ` set (invoked s)"

text \<open>
  A job is pending when it is in the registry and its timeout is still set; its run has
  started when a callback for its id is waiting for the runner.
\<close>

definition pending :: "scheduler \<Rightarrow> string \<Rightarrow> bool" where
  "pending s jid = (case jobs s jid of None \<Rightarrow> False | Some job \<Rightarrow> timers s (timer job) \<noteq> None)"

text \<open>
  What holds of the scheduler after any history in which no id is issued twice (\<open>issued\<close> is
  the set of ids issued so far): a timeout that is set has a handle below the next one, its
  callback's id has not been run and is in the registry with that handle; a callback that
  waits for its run belongs to an id that has been run; the ids in the registry and the
  ids that have been run were issued; and the jobs of the registry have handles of their
  own, below the next one.
\<close>

definition sched_inv :: "string set \<Rightarrow> scheduler \<Rightarrow> bool" where
  "sched_inv issued s =
     ((\<forall>h ms i p. timers s h = Some (ms, i, p) \<longrightarrow>
          h < next_timer s \<and> i \<notin> invoked_ids s \<and> (\<exists>j. jobs s i = Some j \<and> timer j = h))
      \<and> (\<forall>h i p. running s h = Some (i, p) \<longrightarrow> i \<in> invoked_ids s)
      \<and> dom (jobs s) \<subseteq> issued \<and> invoked_ids s \<subseteq> issued
      \<and> (\<forall>i j. jobs s i = Some j \<longrightarrow> timer j < next_timer s)
      \<and> (\<forall>i i' j j'. jobs s i = Some j \<and> jobs s i' = Some j' \<and> timer j = timer j' \<longrightarrow> i = i'))"

text \<open>No timeout is set for the id, and the runner has not been called for it.\<close>

definition never_runs :: "string \<Rightarrow> scheduler \<Rightarrow> bool" where
  "never_runs jid s = (jid \<notin> invoked_ids s \<and> (\<forall>h ms p. timers s h \<noteq> Some (ms, jid, p)))"

text \<open>
  The life of a job in the words of the specification. A job is unknown until it is
  scheduled; it is then pending, with the handle of its timeout (handles are issued in
  order, one for each campaign scheduled), until that timeout fires or the job is
  cancelled; once the timeout has fired its run has started, until the run settles or the
  job is cancelled; after that it is removed. \<open>life_step\<close> is what one event does to the
  job \<open>jid\<close> when \<open>n\<close> campaigns were scheduled before it.
\<close>

datatype phase = Unknown | Pending nat | Started nat | Removed

fun life_step :: "string \<Rightarrow> nat \<Rightarrow> phase \<Rightarrow> sched_event \<Rightarrow> phase" where
  "life_step jid n ph (Schedule i now startAt p) = (if i = jid then Pending n else ph)"
| "life_step jid n ph (TimerFires h) = (if ph = Pending h then Started h else ph)"
| "life_step jid n ph (RunSettles h) = (if ph = Started h then Removed else ph)"
| "life_step jid n ph (Cancel i) = (if i = jid \<and> ph \<noteq> Unknown then Removed else ph)"

fun lives :: "string \<Rightarrow> nat \<Rightarrow> phase \<Rightarrow> sched_event list \<Rightarrow> phase" where
  "lives jid n ph [] = ph"
| "lives jid n ph (e # es) = lives jid (n + length (scheduled_ids [e])) (life_step jid n ph e) es"

definition life :: "string \<Rightarrow> sched_event list \<Rightarrow> phase" where
  "life jid history = lives jid 0 Unknown history"

text \<open>The phases in which the specification has the job in the registry.\<close>

fun in_registry :: "phase \<Rightarrow> bool" where
  "in_registry (Pending h) = True"
| "in_registry (Started h) = True"
| "in_registry ph = False"

text \<open>
  How the scheduler's state and the lives of the jobs agree, \<open>n\<close> being the number of
  campaigns scheduled so far: a job that is unknown or removed is not in the registry; a
  pending job is in the registry and the timeout with its handle is set for it; a job
  whose run has started is in the registry, its timeout is no longer set and the callback
  with its handle waits for the run; a timeout is set only for a pending job, and a
  callback waits only for a job whose run has started or that has been removed since.
\<close>

definition agrees :: "scheduler \<Rightarrow> (string \<Rightarrow> phase) \<Rightarrow> nat \<Rightarrow> bool" where
  "agrees s ph n =
     (next_timer s = n
      \<and> (\<forall>jid. case ph jid of
            Unknown \<Rightarrow> jobs s jid = None
          | Pending h \<Rightarrow> h < n \<and> (\<exists>j. jobs s jid = Some j \<and> timer j = h)
                          \<and> (\<exists>ms p. timers s h = Some (ms, jid, p))
          | Started h \<Rightarrow> h < n \<and> (\<exists>j. jobs s jid = Some j \<and> timer j = h)
                          \<and> timers s h = None \<and> (\<exists>p. running s h = Some (jid, p))
          | Removed \<Rightarrow> jobs s jid = None)
      \<and> (\<forall>h ms i p. timers s h = Some (ms, i, p) \<longrightarrow> ph i = Pending h)
      \<and> (\<forall>h i p. running s h = Some (i, p) \<longrightarrow> ph i = Started h \<or> ph i = Removed))"

section \<open>Properties\<close>

subsection \<open>Credentials\<close>

lemma truthy_iff_not_lacks: "truthy v = (\<not> lacks v)"
  by (cases v) (simp_all add: truthy_def lacks_def)

lemma normalizeWeb_fails_iff:
  "(\<exists>msg. normalizeWeb w = Inl (Error msg)) = (lacks (client_id w) \<or> lacks (client_secret w))"
  by (auto simp: normalizeWeb_def truthy_iff_not_lacks Let_def)

lemma normalizeInstalled_fails_iff:
  "(\<exists>msg. normalizeInstalled c = Inl (Error msg)) = (lacks (client_id c) \<or> lacks (client_secret c))"
  by (auto simp: normalizeInstalled_def truthy_iff_not_lacks Let_def)

lemma normalizeWeb_keeps:
  assumes "\<not> lacks (client_id w)" and "\<not> lacks (client_secret w)"
  shows "\<exists>n. normalizeWeb w = Inr n \<and> client_id w = Some (norm_client_id n)
           \<and> client_secret w = Some (norm_client_secret n)
           \<and> norm_client_id n \<noteq> [] \<and> norm_client_secret n \<noteq> []"
  using assms by (auto simp: normalizeWeb_def truthy_iff_not_lacks lacks_def Let_def)

lemma normalizeInstalled_keeps:
  assumes "\<not> lacks (client_id c)" and "\<not> lacks (client_secret c)"
  shows "\<exists>n. normalizeInstalled c = Inr n \<and> client_id c = Some (norm_client_id n)
           \<and> client_secret c = Some (norm_client_secret n)
           \<and> norm_client_id n \<noteq> [] \<and> norm_client_secret n \<noteq> []"
  using assms by (auto simp: normalizeInstalled_def truthy_iff_not_lacks lacks_def Let_def)

text \<open>
  Claim C4. For a credential document of any of the three accepted shapes,
  \<open>normalizeCredentials\<close> throws exactly when the credential object of that shape lacks
  \<open>client_id\<close> or \<open>client_secret\<close> (the field is absent or empty); when both are there it
  returns a normalized record that carries the two fields unchanged.
\<close>

theorem normalizeCredentials_fails_iff_lacking:
  fixes doc :: raw_doc
  defines "c \<equiv> credentials_of doc"
  shows "((\<exists>msg. normalizeCredentials (Some doc) = Inl (Error msg))
            = (lacks (client_id c) \<or> lacks (client_secret c)))
         \<and> (\<not> lacks (client_id c) \<and> \<not> lacks (client_secret c) \<longrightarrow>
              (\<exists>n. normalizeCredentials (Some doc) = Inr n
                   \<and> client_id c = Some (norm_client_id n)
                   \<and> client_secret c = Some (norm_client_secret n)))"
proof (cases "web doc")
  case (Some w)
  then have run: "normalizeCredentials (Some doc) = normalizeWeb w" and c: "c = w"
    by (simp_all add: normalizeCredentials_def credentials_of_def c_def)
  show ?thesis
    unfolding run c using normalizeWeb_fails_iff [of w] normalizeWeb_keeps [of w] by blast
next
  case None
  show ?thesis
  proof (cases "installed doc")
    case (Some i)
    with None have run: "normalizeCredentials (Some doc) = normalizeInstalled i" and c: "c = i"
      by (simp_all add: normalizeCredentials_def credentials_of_def c_def)
    show ?thesis
      unfolding run c using normalizeInstalled_fails_iff [of i] normalizeInstalled_keeps [of i]
      by blast
  next
    case inone: None
    with None have run: "normalizeCredentials (Some doc) = normalizeInstalled (flat doc)"
      and c: "c = flat doc"
      by (simp_all add: normalizeCredentials_def credentials_of_def c_def)
    show ?thesis
      unfolding run c
      using normalizeInstalled_fails_iff [of "flat doc"] normalizeInstalled_keeps [of "flat doc"]
      by blast
  qed
qed

theorem normalizeCredentials_installed_witness:
  "\<exists>n. normalizeCredentials
         (Some \<lparr>web = None,
                 installed = Some \<lparr>client_id = Some ''abc.apps'', client_secret = Some ''s3cret'',
                                    redirect_uris = Some [''http://localhost'']\<rparr>,
                 flat = \<lparr>client_id = None, client_secret = None, redirect_uris = None\<rparr>\<rparr>) = Inr n
       \<and> norm_client_id n = ''abc.apps'' \<and> norm_client_secret n = ''s3cret''"
  using normalizeCredentials_fails_iff_lacking
    [of "\<lparr>web = None,
          installed = Some \<lparr>client_id = Some ''abc.apps'', client_secret = Some ''s3cret'',
                             redirect_uris = Some [''http://localhost'']\<rparr>,
          flat = \<lparr>client_id = None, client_secret = None, redirect_uris = None\<rparr>\<rparr>"]
  by (auto simp: credentials_of_def lacks_def)

subsection \<open>Template renderer\<close>

lemma regex_literal_plain:
  "\<not> syntax_char c \<Longrightarrow> regex_literal (c # cs) = map_option (Cons c) (regex_literal cs)"
  by (cases cs) (auto simp: syntax_char_def)

lemma regex_literal_escaped:
  "identity_escape d \<Longrightarrow> regex_literal (backslash # d # cs) = map_option (Cons d) (regex_literal cs)"
  by simp

lemma escaped_class_iff: "escaped_class c = identity_escape c"
  by (auto simp: escaped_class_def identity_escape_def syntax_char_def)

lemma regex_literal_escapeRegExp:
  "regex_literal (escapeRegExp key @ tail) = map_option (\<lambda>t. key @ t) (regex_literal tail)"
proof (induction key)
  case Nil
  show ?case by (simp add: escapeRegExp_def option.map_ident)
next
  case (Cons c key)
  have step: "escapeRegExp (c # key) = (if escaped_class c then [backslash, c] else [c]) @ escapeRegExp key"
    by (simp add: escapeRegExp_def)
  show ?case
  proof (cases "escaped_class c")
    case True
    then show ?thesis
      using Cons.IH by (simp add: step escaped_class_iff regex_literal_escaped option.map_comp comp_def del: regex_literal.simps)
  next
    case False
    then have "\<not> syntax_char c"
      by (auto simp: escaped_class_iff identity_escape_def)
    then show ?thesis
      using False Cons.IH by (simp add: step regex_literal_plain option.map_comp comp_def del: regex_literal.simps)
  qed
qed

lemma regex_literal_placeholder_source:
  "regex_literal (placeholder_source key) = Some (placeholder key)"
proof -
  have paren: "identity_escape (CHR ''('')" "identity_escape (CHR '')'')"
    by (simp_all add: identity_escape_def syntax_char_def)
  have "regex_literal (placeholder_source key)
      = map_option (\<lambda>t. ''(('' @ t) (regex_literal (escapeRegExp key @ [backslash, CHR '')'', backslash, CHR '')'']))"
    unfolding placeholder_source_def
    by (simp add: regex_literal_escaped paren option.map_comp comp_def del: regex_literal.simps)
  also have "regex_literal (escapeRegExp key @ [backslash, CHR '')'', backslash, CHR '')''])
      = Some (key @ ''))'')"
    by (simp add: regex_literal_escapeRegExp paren)
  finally show ?thesis by (simp add: placeholder_def)
qed

lemma split_on_not_Nil: "split_on sep s \<noteq> []"
  by (induction sep s rule: split_on.induct) (auto split: list.splits)

lemma join_str_Cons: "gs \<noteq> [] \<Longrightarrow> join_str sep (g # gs) = g @ sep @ join_str sep gs"
  by (cases gs) auto

lemma join_str_Cons_first: "join_str sep ((c # g) # gs) = c # join_str sep (g # gs)"
  by (cases gs) auto

lemma replace_literal_g_no_match:
  "pat \<noteq> [] \<Longrightarrow> \<not> sublist pat s \<Longrightarrow> replace_literal_g pat template passed s = s"
  by (induction s arbitrary: passed) (auto simp: sublist_Cons_right)

lemma join_split_on: "join_str sep (split_on sep s) = s"
proof (induction sep s rule: split_on.induct)
  case (1 sep)
  show ?case by simp
next
  case (2 sep c cs)
  show ?case
  proof (cases "sep \<noteq> [] \<and> prefix sep (c # cs)")
    case True
    then have "join_str sep (split_on sep (c # cs)) = sep @ drop (length sep) (c # cs)"
      using 2 by (simp add: join_str_Cons split_on_not_Nil)
    also have "\<dots> = c # cs"
      using True by (metis append_take_drop_id prefix_def append_eq_conv_conj)
    finally show ?thesis .
  next
    case False
    obtain g gs where seg: "split_on sep cs = g # gs"
      using split_on_not_Nil [of sep cs] by (cases "split_on sep cs") auto
    with False 2 show ?thesis
      by (auto simp: join_str_Cons_first)
  qed
qed

lemma placeholder_not_Nil [simp]: "placeholder name \<noteq> []"
  by (simp add: placeholder_def)

lemma replace_regex_g_placeholder:
  "replace_regex_g (placeholder_source key) template s
     = Some (replace_literal_g (placeholder key) template [] s)"
  by (simp add: replace_regex_g_def regex_literal_placeholder_source)

lemma render_headers_Cons:
  "render_headers out (h # hs) i r
     = render_headers (replace_literal_g (placeholder (trim h)) (cell_text r i) [] out) hs (Suc i) r"
  by (simp add: replace_regex_g_placeholder)

lemma render_headers_unchanged:
  "(\<forall>h\<in>set hs. \<not> sublist (placeholder (trim h)) out) \<Longrightarrow> render_headers out hs i r = Some out"
proof (induction hs arbitrary: i)
  case Nil
  show ?case by simp
next
  case (Cons h hs)
  then show ?case
    unfolding render_headers_Cons by (simp add: replace_literal_g_no_match)
qed

lemma renderWithRow_None: "renderWithRow text0 headers r None = render_headers text0 headers 0 r"
  by (simp add: renderWithRow_def truthy_def option.map_ident)

lemma GetSubstitution_plain:
  "plain template \<Longrightarrow> GetSubstitution matched passed rest template = template"
proof (induction matched passed rest template rule: GetSubstitution.induct)
  case (3 matched passed rest c d cs)
  have tl: "plain (d # cs)"
    using "3.prems" by (auto simp: plain_def sublist_Cons_right)
  show ?case
  proof (cases "c = CHR ''$''")
    case True
    with "3.prems" have "d \<noteq> CHR ''$''" "d \<noteq> CHR ''&''" "d \<noteq> CHR 0x60" "d \<noteq> CHR 0x27"
      by (auto simp: plain_def sublist_Cons_right)
    with True 3 tl show ?thesis by simp
  next
    case False
    with 3 tl show ?thesis by simp
  qed
qed simp_all

lemma replace_literal_g_join:
  "pat \<noteq> [] \<Longrightarrow> plain v
     \<Longrightarrow> replace_literal_g pat v passed s = join_str v (split_on pat s)"
proof (induction pat v passed s rule: replace_literal_g.induct)
  case (1 pat template passed)
  then show ?case by simp
next
  case (2 pat template passed c cs)
  show ?case
  proof (cases "prefix pat (c # cs)")
    case True
    with 2 show ?thesis
      by (simp add: GetSubstitution_plain join_str_Cons split_on_not_Nil)
  next
    case False
    obtain g gs where seg: "split_on pat cs = g # gs"
      using split_on_not_Nil [of pat cs] by (cases "split_on pat cs") auto
    with False 2 show ?thesis
      by (simp add: join_str_Cons_first)
  qed
qed

lemma replace_match:
  "pat \<noteq> [] \<Longrightarrow> prefix pat (c # cs)
     \<Longrightarrow> join_str v (split_on pat (c # cs)) = v @ join_str v (split_on pat (drop (length pat) (c # cs)))"
  by (simp add: join_str_Cons split_on_not_Nil)

lemma replace_skip:
  "\<not> prefix pat (c # cs) \<Longrightarrow> join_str v (split_on pat (c # cs)) = c # join_str v (split_on pat cs)"
proof -
  assume no: "\<not> prefix pat (c # cs)"
  obtain g gs where seg: "split_on pat cs = g # gs"
    using split_on_not_Nil [of pat cs] by (cases "split_on pat cs") auto
  with no show ?thesis by (simp add: join_str_Cons_first)
qed

lemma replace_through:
  "(\<forall>s. suffix s q \<and> s \<noteq> [] \<longrightarrow> \<not> prefix pat (s @ post))
     \<Longrightarrow> join_str v (split_on pat (q @ post)) = q @ join_str v (split_on pat post)"
proof (induction q)
  case Nil
  show ?case by simp
next
  case (Cons c q)
  have here: "\<not> prefix pat (c # q @ post)"
    using Cons.prems [rule_format, of "c # q"] by simp
  have rest: "\<forall>s. suffix s q \<and> s \<noteq> [] \<longrightarrow> \<not> prefix pat (s @ post)"
    using Cons.prems by (simp add: suffix_Cons)
  show ?case
    using replace_skip [OF here, of v] Cons.IH [OF rest] by simp
qed

lemma sublist_through:
  "(\<forall>s. suffix s q \<and> s \<noteq> [] \<longrightarrow> \<not> prefix pat (s @ post))
     \<Longrightarrow> sublist pat (q @ post) \<Longrightarrow> sublist pat post"
proof (induction q)
  case Nil
  then show ?case by simp
next
  case (Cons c q)
  have here: "\<not> prefix pat (c # q @ post)"
    using Cons.prems(1) [rule_format, of "c # q"] by simp
  have rest: "\<forall>s. suffix s q \<and> s \<noteq> [] \<longrightarrow> \<not> prefix pat (s @ post)"
    using Cons.prems(1) by (simp add: suffix_Cons)
  from Cons.prems(2) here have "sublist pat (q @ post)"
    by (simp add: sublist_Cons_right)
  then show ?case by (rule Cons.IH [OF rest])
qed

lemma overlap_no_start:
  assumes "\<not> overlap pat q" and "suffix s q" and "s \<noteq> []"
  shows "\<not> prefix pat (s @ post)"
proof
  assume "prefix pat (s @ post)"
  then have "prefix pat s \<or> prefix s pat"
    by (auto simp: prefix_append)
  with assms show False
    by (auto simp: overlap_def)
qed

lemma overlap_no_crossing:
  assumes "\<not> overlap pat q" and "prefix pat (pre @ q @ post)" and "q \<noteq> []"
  shows "prefix pat pre"
proof (rule ccontr)
  assume no: "\<not> prefix pat pre"
  from assms(2) no obtain us where us: "pat = pre @ us" "prefix us (q @ post)"
    by (auto simp: prefix_append)
  from no us(1) have "us \<noteq> []" by auto
  from us(2) have "prefix us q \<or> prefix q us"
    by (auto simp: prefix_append)
  moreover have "suffix us pat"
    using us(1) by (simp add: suffix_def)
  ultimately show False
    using assms(1) \<open>us \<noteq> []\<close> by (auto simp: overlap_def)
qed

lemma replace_around:
  assumes "pat \<noteq> []" and "\<not> overlap pat q" and "q \<noteq> []"
  shows "join_str v (split_on pat (pre @ q @ post))
           = join_str v (split_on pat pre) @ q @ join_str v (split_on pat post)"
proof (induction pre rule: length_induct)
  case (1 pre)
  show ?case
  proof (cases pre)
    case Nil
    have "\<forall>s. suffix s q \<and> s \<noteq> [] \<longrightarrow> \<not> prefix pat (s @ post)"
      using overlap_no_start [OF assms(2)] by blast
    then show ?thesis
      using Nil by (simp add: replace_through)
  next
    case (Cons c cs)
    show ?thesis
    proof (cases "prefix pat (pre @ q @ post)")
      case True
      have inside: "prefix pat pre"
        using overlap_no_crossing [OF assms(2) True assms(3)] .
      then have len: "length pat \<le> length pre"
        by (rule prefix_length_le)
      let ?pre' = "drop (length pat) pre"
      have shorter: "length ?pre' < length pre"
        using assms(1) Cons by simp
      have A: "join_str v (split_on pat (pre @ q @ post))
              = v @ join_str v (split_on pat (drop (length pat) (pre @ q @ post)))"
        using replace_match [OF assms(1), of c "cs @ q @ post" v] True Cons by simp
      have B: "drop (length pat) (pre @ q @ post) = ?pre' @ q @ post"
        using len by simp
      have C: "join_str v (split_on pat (?pre' @ q @ post))
              = join_str v (split_on pat ?pre') @ q @ join_str v (split_on pat post)"
        using 1 shorter by blast
      have D: "join_str v (split_on pat pre) = v @ join_str v (split_on pat ?pre')"
        using replace_match [OF assms(1), of c cs v] inside Cons by simp
      show ?thesis
        unfolding A B C D by simp
    next
      case False
      then have no: "\<not> prefix pat pre"
        using prefix_prefix by blast
      have A: "join_str v (split_on pat (pre @ q @ post))
              = c # join_str v (split_on pat (cs @ q @ post))"
        using replace_skip [of pat c "cs @ q @ post" v] False Cons by simp
      have C: "join_str v (split_on pat (cs @ q @ post))
              = join_str v (split_on pat cs) @ q @ join_str v (split_on pat post)"
        using 1 Cons by simp
      have D: "join_str v (split_on pat pre) = c # join_str v (split_on pat cs)"
        using replace_skip [of pat c cs v] no Cons by simp
      show ?thesis
        unfolding A C D by simp
    qed
  qed
qed

lemma render_spec_around:
  "(\<forall>h\<in>set hs. \<not> overlap (placeholder (trim h)) q) \<Longrightarrow> q \<noteq> []
     \<Longrightarrow> render_spec (pre @ q @ post) hs i r = render_spec pre hs i r @ q @ render_spec post hs i r"
proof (induction hs arbitrary: pre post i)
  case Nil
  show ?case by simp
next
  case (Cons h hs)
  have "\<not> overlap (placeholder (trim h)) q"
    using Cons.prems by simp
  then have "join_str (cell_text r i) (split_on (placeholder (trim h)) (pre @ q @ post))
        = join_str (cell_text r i) (split_on (placeholder (trim h)) pre) @ q
            @ join_str (cell_text r i) (split_on (placeholder (trim h)) post)"
    using Cons.prems(2) by (intro replace_around) simp_all
  then show ?case
    using Cons.IH [of _ _ "Suc i"] Cons.prems by simp
qed

lemma prefix_same_stop:
  "x \<notin> set k \<Longrightarrow> x \<notin> set n \<Longrightarrow> prefix (k @ x # a) (n @ x # b) \<Longrightarrow> k = n"
proof (induction k arbitrary: n)
  case Nil
  then show ?case by (cases n) auto
next
  case (Cons c k)
  then show ?case by (cases n) auto
qed

lemma placeholders_apart_half:
  assumes "bracket_free k" and "bracket_free n" and "k \<noteq> n"
    and "suffix s (placeholder n)" and "s \<noteq> []"
    and "prefix s (placeholder k) \<or> prefix (placeholder k) s"
  shows False
proof -
  from assms(4) consider "s = placeholder n" | "s = CHR ''('' # n @ ''))''" | "suffix s (n @ ''))'')"
    by (auto simp: placeholder_def suffix_Cons)
  then show False
  proof cases
    case 1
    with assms(6) have "prefix (n @ CHR '')'' # '')'') (k @ CHR '')'' # '')'')
        \<or> prefix (k @ CHR '')'' # '')'') (n @ CHR '')'' # '')'')"
      by (auto simp: placeholder_def)
    then have "k = n"
      using prefix_same_stop [of "CHR '')''" k n "'')''" "'')''"]
        prefix_same_stop [of "CHR '')''" n k "'')''" "'')''"] assms(1,2)
      by (auto simp: bracket_free_def)
    with assms(3) show False ..
  next
    case 2
    with assms(6) have "prefix (n @ ''))'') (CHR ''('' # k @ ''))'')
        \<or> prefix (CHR ''('' # k @ ''))'') (n @ ''))'')"
      by (auto simp: placeholder_def)
    then show False
      using assms(2) by (cases n) (auto simp: bracket_free_def)
  next
    case 3
    from assms(5) obtain c s' where s: "s = c # s'" by (cases s) auto
    with 3 have "c \<in> set (n @ ''))'')"
      using set_mono_suffix by fastforce
    moreover from assms(6) s have "c = CHR ''(''"
      by (auto simp: placeholder_def)
    ultimately show False
      using assms(2) by (auto simp: bracket_free_def)
  qed
qed

lemma placeholders_apart:
  assumes "bracket_free k" and "bracket_free n" and "k \<noteq> n"
  shows "\<not> overlap (placeholder k) (placeholder n)"
proof
  assume "overlap (placeholder k) (placeholder n)"
  then consider s where "suffix s (placeholder n)" "s \<noteq> []"
        "prefix s (placeholder k) \<or> prefix (placeholder k) s"
    | s where "suffix s (placeholder k)" "s \<noteq> []"
        "prefix s (placeholder n) \<or> prefix (placeholder n) s"
    by (auto simp: overlap_def)
  then show False
  proof cases
    case 1
    then show False by (rule placeholders_apart_half [OF assms])
  next
    case 2
    then show False by (rule placeholders_apart_half [OF assms(2,1) assms(3) [symmetric]])
  qed
qed

lemma no_start_in_literal:
  assumes "well_formed (Lit l)" and "suffix s l" and "s \<noteq> []"
  shows "\<not> prefix (placeholder k) (s @ post)"
proof
  assume match: "prefix (placeholder k) (s @ post)"
  from assms(3) obtain c s' where s: "s = c # s'" by (cases s) auto
  from match s have c: "c = CHR ''(''"
    by (auto simp: placeholder_def)
  show False
  proof (cases s')
    case Nil
    with s c assms(1,2) show False by (simp add: literal_ok_def)
  next
    case (Cons d s'')
    with match s have "d = CHR ''(''"
      by (auto simp: placeholder_def)
    with Cons s c have "prefix ''(('' s"
      by simp
    then have "sublist ''(('' s"
      by (rule prefix_imp_sublist)
    moreover have "sublist s l"
      using assms(2) by (rule suffix_imp_sublist)
    ultimately have "sublist ''(('' l"
      by (rule sublist_order.order_trans)
    with assms(1) show False by (simp add: literal_ok_def)
  qed
qed

lemma prefix_other_stop:
  "y \<notin> set a \<Longrightarrow> x \<notin> set n \<Longrightarrow> x \<noteq> y \<Longrightarrow> \<not> prefix (a @ x # b) (n @ y # c)"
proof (induction a arbitrary: n)
  case Nil
  then show ?case by (cases n) auto
next
  case (Cons e a)
  then show ?case by (cases n) auto
qed

lemma key_ok_cases:
  assumes "key_ok k"
  obtains "bracket_free k" | a b where "k = a @ CHR ''('' # b" "bracket_free a"
proof (cases "dropWhile (\<lambda>c. c \<noteq> CHR ''('' \<and> c \<noteq> CHR '')'') k")
  case Nil
  then have "bracket_free k"
    by (auto simp: bracket_free_def dropWhile_eq_Nil_conv)
  then show ?thesis by (rule that(1))
next
  case (Cons c cs)
  with assms have c: "c = CHR ''(''" by (simp add: key_ok_def)
  let ?a = "takeWhile (\<lambda>c. c \<noteq> CHR ''('' \<and> c \<noteq> CHR '')'') k"
  have "k = ?a @ CHR ''('' # cs"
    using Cons c takeWhile_dropWhile_id [of "\<lambda>c. c \<noteq> CHR ''('' \<and> c \<noteq> CHR '')''" k] by simp
  moreover have "bracket_free ?a"
    by (auto simp: bracket_free_def dest: set_takeWhileD)
  ultimately show ?thesis by (rule that(2))
qed

lemma no_start_in_hole:
  assumes "key_ok k" and "bracket_free n" and "k \<noteq> n"
    and "suffix s (placeholder n)" and "s \<noteq> []"
  shows "\<not> prefix (placeholder k) (s @ post)"
proof
  assume match: "prefix (placeholder k) (s @ post)"
  from assms(4) consider "s = placeholder n" | "s = CHR ''('' # n @ ''))''" | "suffix s (n @ ''))'')"
    by (auto simp: placeholder_def suffix_Cons)
  then show False
  proof cases
    case 1
    with match have pre: "prefix (k @ CHR '')'' # '')'') (n @ CHR '')'' # CHR '')'' # post)"
      by (auto simp: placeholder_def)
    from assms(1) show False
    proof (cases rule: key_ok_cases)
      case 1
      then have "k = n"
        using prefix_same_stop [OF _ _ pre] assms(2) by (simp add: bracket_free_def)
      with assms(3) show False ..
    next
      case (2 a b)
      with pre have "prefix (a @ CHR ''('' # (b @ ''))'')) (n @ CHR '')'' # CHR '')'' # post)"
        by simp
      then show False
        using prefix_other_stop [of "CHR '')''" a "CHR ''(''" n] 2(2) assms(2)
        by (simp add: bracket_free_def)
    qed
  next
    case 2
    with match have "prefix (CHR ''('' # k @ ''))'') (n @ CHR '')'' # CHR '')'' # post)"
      by (auto simp: placeholder_def)
    then show False
      using assms(2) by (cases n) (auto simp: bracket_free_def)
  next
    case 3
    from assms(5) obtain c s' where s: "s = c # s'" by (cases s) auto
    with 3 have "c \<in> set (n @ ''))'')"
      using set_mono_suffix by fastforce
    moreover from match s have "c = CHR ''(''"
      by (auto simp: placeholder_def)
    ultimately show False
      using assms(2) by (auto simp: bracket_free_def)
  qed
qed

lemma replace_shown:
  assumes "key_ok (trim h)" and "\<forall>p\<in>set ps. well_formed p"
  shows "join_str (cell_text r i) (split_on (placeholder (trim h)) (shown ps))
           = shown (map (fill [h] i r) ps)"
  using assms(2)
proof (induction ps rule: shown.induct)
  case 1
  show ?case by simp
next
  case (2 l ps)
  have "\<forall>s. suffix s l \<and> s \<noteq> [] \<longrightarrow> \<not> prefix (placeholder (trim h)) (s @ shown ps)"
    using no_start_in_literal [of l] 2(2) by simp
  then show ?case
    using 2 by (simp add: replace_through)
next
  case (3 n ps)
  show ?case
  proof (cases "trim h = n")
    case True
    obtain c cs where pc: "placeholder n @ shown ps = c # cs"
      by (cases "placeholder n @ shown ps") (auto simp: placeholder_def)
    have "join_str (cell_text r i) (split_on (placeholder n) (placeholder n @ shown ps))
            = cell_text r i @ join_str (cell_text r i) (split_on (placeholder n) (shown ps))"
      using replace_match [of "placeholder n" c cs "cell_text r i"] pc [symmetric] by simp
    with True 3 show ?thesis by simp
  next
    case False
    have "bracket_free n" using 3(2) by simp
    then have "\<forall>s. suffix s (placeholder n) \<and> s \<noteq> []
        \<longrightarrow> \<not> prefix (placeholder (trim h)) (s @ shown ps)"
      using no_start_in_hole [OF assms(1) _ False] by blast
    then show ?thesis
      using 3 False by (simp add: replace_through)
  qed
qed

lemma fill_Cons: "fill hs (Suc i) r (fill [h] i r p) = fill (h # hs) i r p"
  by (cases p) auto

lemma value_of_cell: "value_of hs i r n = Some v \<Longrightarrow> \<exists>j<length hs. v = cell_text r (i + j)"
proof (induction hs arbitrary: i)
  case Nil
  then show ?case by simp
next
  case (Cons h hs)
  show ?case
  proof (cases "trim h = n")
    case True
    with Cons.prems show ?thesis by auto
  next
    case False
    with Cons.prems have "value_of hs (Suc i) r n = Some v" by simp
    then obtain j where "j < length hs" "v = cell_text r (Suc i + j)"
      using Cons.IH by blast
    then have "Suc j < length (h # hs)" "v = cell_text r (i + Suc j)" by simp_all
    then show ?thesis by blast
  qed
qed

lemma value_of_None: "(value_of hs i r n = None) = (n \<notin> trim ` set hs)"
  by (induction hs arbitrary: i) auto

lemma well_formed_fill:
  assumes "well_formed p" and "\<forall>j<length hs. literal_ok (cell_text r (i + j))"
  shows "well_formed (fill hs i r p)"
proof (cases p)
  case (Lit l)
  with assms(1) show ?thesis by simp
next
  case (Hole n)
  show ?thesis
  proof (cases "value_of hs i r n")
    case None
    with Hole assms(1) show ?thesis by simp
  next
    case (Some v)
    then obtain j where "j < length hs" "v = cell_text r (i + j)"
      using value_of_cell by blast
    with assms(2) have "literal_ok v" by simp
    with Hole Some show ?thesis by simp
  qed
qed

lemma render_spec_shown:
  assumes "\<forall>p\<in>set ps. well_formed p"
    and "\<forall>h\<in>set hs. key_ok (trim h)"
    and "\<forall>j<length hs. literal_ok (cell_text r (i + j))"
  shows "render_spec (shown ps) hs i r = shown (map (fill hs i r) ps)"
  using assms
proof (induction hs arbitrary: ps i)
  case Nil
  have "fill [] i r p = p" for p
    by (cases p) simp_all
  then have "map (fill [] i r) ps = ps"
    by (simp add: map_idI)
  then show ?case by simp
next
  case (Cons h hs)
  let ?ps = "map (fill [h] i r) ps"
  have here: "literal_ok (cell_text r i)"
    using Cons.prems(3) [rule_format, of 0] by simp
  have later: "\<forall>j<length hs. literal_ok (cell_text r (Suc i + j))"
    using Cons.prems(3) by force
  have one: "\<forall>j<length [h]. literal_ok (cell_text r (i + j))"
    using here by simp
  have wf: "\<forall>p\<in>set ?ps. well_formed p"
    using Cons.prems(1) well_formed_fill [OF _ one] by auto
  have "render_spec (shown ps) (h # hs) i r = render_spec (shown ?ps) hs (Suc i) r"
    using replace_shown [of h ps r i] Cons.prems(1,2) by simp
  also have "\<dots> = shown (map (fill hs (Suc i) r) ?ps)"
    using Cons.IH [OF wf _ later] Cons.prems(2) by simp
  also have "map (fill hs (Suc i) r) ?ps = map (fill (h # hs) i r) ps"
    by (simp add: fill_Cons)
  finally show ?case .
qed

lemma shown_clean:
  assumes "key_ok k" and "\<forall>p\<in>set ps. well_formed p" and "Hole k \<notin> set ps"
  shows "\<not> sublist (placeholder k) (shown ps)"
  using assms(2,3)
proof (induction ps rule: shown.induct)
  case 1
  show ?case by (simp add: placeholder_def)
next
  case (2 l ps)
  have "\<forall>s. suffix s l \<and> s \<noteq> [] \<longrightarrow> \<not> prefix (placeholder k) (s @ shown ps)"
    using no_start_in_literal [of l] 2(2) by simp
  then have "sublist (placeholder k) (l @ shown ps) \<Longrightarrow> sublist (placeholder k) (shown ps)"
    by (rule sublist_through)
  with 2 show ?case by auto
next
  case (3 n ps)
  have "bracket_free n" "k \<noteq> n" using 3(2,3) by auto
  then have "\<forall>s. suffix s (placeholder n) \<and> s \<noteq> [] \<longrightarrow> \<not> prefix (placeholder k) (s @ shown ps)"
    using no_start_in_hole [OF assms(1)] by blast
  then have "sublist (placeholder k) (placeholder n @ shown ps) \<Longrightarrow> sublist (placeholder k) (shown ps)"
    by (rule sublist_through)
  with 3 show ?case by auto
qed

lemma fill_no_header_hole: "h \<in> set hs \<Longrightarrow> Hole (trim h) \<notin> set (map (fill hs i r) ps)"
proof
  assume h: "h \<in> set hs" and "Hole (trim h) \<in> set (map (fill hs i r) ps)"
  then obtain p where "fill hs i r p = Hole (trim h)" by auto
  then have "value_of hs i r (trim h) = None"
    by (cases p) (auto split: option.splits)
  with h show False by (simp add: value_of_None)
qed

lemma renderWithRow_total: "\<exists>out. renderWithRow text0 hs r signature = Some out"
proof -
  have "\<exists>out. render_headers text0 hs i r = Some out" for i
    by (induction hs arbitrary: text0 i) (simp_all add: render_headers_Cons del: render_headers.simps(2))
  then show ?thesis by (auto simp: renderWithRow_def)
qed

lemma render_headers_plain:
  "(\<forall>j<length hs. plain (cell_text r (i + j)))
     \<Longrightarrow> render_headers out hs i r = Some (render_spec out hs i r)"
proof (induction hs arbitrary: out i)
  case Nil
  show ?case by simp
next
  case (Cons h hs)
  have here: "plain (cell_text r i)"
    using Cons.prems by force
  have later: "\<forall>j<length hs. plain (cell_text r (Suc i + j))"
    using Cons.prems by force
  show ?case
    unfolding render_headers_Cons
    using Cons.IH [OF later] here
    by (simp add: replace_literal_g_join)
qed

lemma renderWithRow_plain:
  "(\<forall>i<length headers. plain (cell_text r i))
     \<Longrightarrow> renderWithRow text0 headers r None = Some (render_spec text0 headers 0 r)"
  using render_headers_plain [of headers r 0 text0] by (simp add: renderWithRow_None)

text \<open>
  Claim C9 fails as stated for a header with white space around it: the key is the
  trimmed header, so for the header \<^verbatim>\<open>" a.b "\<close> the placeholder of the header as it
  stands, \<^verbatim>\<open>(( a.b ))\<close>, is not matched. The placeholder of the trimmed text is matched,
  and literally: \<^verbatim>\<open>((aXb))\<close> stays.
\<close>

theorem renderWithRow_untrimmed_header_counterexample:
  "renderWithRow ''(( a.b )) ((a.b)) ((aXb))'' ['' a.b ''] [''v''] None
     = Some ''(( a.b )) v ((aXb))''"
  by code_simp

text \<open>
  Claim C9, amended. \<open>renderWithRow\<close> escapes the regular-expression metacharacters of the
  trimmed header before it builds the pattern, so a header never acts as a regular
  expression over the template: for every header the pattern source reads as the literal
  placeholder of the trimmed header; no header list makes the function fail; a text in
  which the placeholder of no trimmed header occurs literally is returned unchanged,
  whatever the headers and the values are; and when the values are plain (none of
  \<^verbatim>\<open>$$\<close>, \<^verbatim>\<open>$&\<close>, \<^verbatim>\<open>$`\<close>, \<^verbatim>\<open>$'\<close>), every literal occurrence of the placeholder of
  each trimmed header is replaced, header by header, with the row's value, which for a
  header without white space around it is the placeholder \<^verbatim>\<open>((header))\<close> itself.
\<close>

theorem renderWithRow_matches_headers_literally:
  "regex_literal (placeholder_source (trim h)) = Some (placeholder (trim h))
   \<and> (\<exists>out. renderWithRow text0 headers r signature = Some out)
   \<and> ((\<forall>k\<in>set headers. \<not> sublist (placeholder (trim k)) text0) \<longrightarrow>
        renderWithRow text0 headers r None = Some text0)
   \<and> ((\<forall>i<length headers. plain (cell_text r i)) \<longrightarrow>
        renderWithRow text0 headers r None = Some (render_spec text0 headers 0 r))
   \<and> (plain v \<and> trim h = h \<longrightarrow>
        renderWithRow text0 [h] [v] None
          = Some (join_str v (split_on (''(('' @ h @ ''))'') text0)))"
proof -
  have one: "renderWithRow text0 [h] [v] None
               = Some (join_str v (split_on (placeholder (trim h)) text0))" if "plain v"
    using renderWithRow_plain [of "[h]" "[v]" text0] that
    by (simp add: cell_text_def cell_def)
  have same: "placeholder (trim h) = ''(('' @ h @ ''))''" if "trim h = h"
    using that by (simp add: placeholder_def)
  show ?thesis
  proof (intro conjI impI)
    show "regex_literal (placeholder_source (trim h)) = Some (placeholder (trim h))"
      by (rule regex_literal_placeholder_source)
  next
    show "\<exists>out. renderWithRow text0 headers r signature = Some out"
      by (rule renderWithRow_total)
  next
    assume "\<forall>k\<in>set headers. \<not> sublist (placeholder (trim k)) text0"
    then show "renderWithRow text0 headers r None = Some text0"
      using render_headers_unchanged [of headers text0 0 r] by (simp add: renderWithRow_None)
  next
    assume "\<forall>i<length headers. plain (cell_text r i)"
    then show "renderWithRow text0 headers r None = Some (render_spec text0 headers 0 r)"
      by (rule renderWithRow_plain)
  next
    assume both: "plain v \<and> trim h = h"
    then have p: "plain v" and t: "trim h = h" by simp_all
    show "renderWithRow text0 [h] [v] None
            = Some (join_str v (split_on (''(('' @ h @ ''))'') text0))"
      using one [OF p] unfolding same [OF t] .
  qed
qed

theorem renderWithRow_matches_headers_literally_witness:
  "renderWithRow ''((aab)) ((a.b*(c)+$))'' [''a.b*(c)+$''] [''X''] None = Some ''((aab)) X''
   \<and> renderWithRow ''((axb)) ((a+b))'' [''a.b'', ''a+b*''] [''X'', ''Y''] None
       = Some ''((axb)) ((a+b))''"
proof -
  have plain: "plain ''X''" by code_simp
  have key: "trim ''a.b*(c)+$'' = ''a.b*(c)+$''" by code_simp
  have out: "join_str ''X'' (split_on (''(('' @ ''a.b*(c)+$'' @ ''))'') ''((aab)) ((a.b*(c)+$))'')
               = ''((aab)) X''"
    by code_simp
  have absent: "\<forall>k\<in>set [''a.b'', ''a+b*'']. \<not> sublist (placeholder (trim k)) ''((axb)) ((a+b))''"
    by code_simp
  have A: "renderWithRow ''((aab)) ((a.b*(c)+$))'' [''a.b*(c)+$''] [''X''] None
             = Some (join_str ''X'' (split_on (''(('' @ ''a.b*(c)+$'' @ ''))'') ''((aab)) ((a.b*(c)+$))''))"
    using renderWithRow_matches_headers_literally
            [of "''a.b*(c)+$''" "''((aab)) ((a.b*(c)+$))''" "[]" "[]" None "''X''"] plain key
    by blast
  have B: "renderWithRow ''((axb)) ((a+b))'' [''a.b'', ''a+b*''] [''X'', ''Y''] None
             = Some ''((axb)) ((a+b))''"
    using renderWithRow_matches_headers_literally
            [of "''a.b''" "''((axb)) ((a+b))''" "[''a.b'', ''a+b*'']" "[''X'', ''Y'']" None "''X''"] absent
    by blast
  show ?thesis
    unfolding A B out by (rule conjI) (rule refl)+
qed

text \<open>
  Claim C2 fails as stated: the header's text is not taken verbatim but trimmed, so for the
  header \<^verbatim>\<open>" Name "\<close> the placeholder \<^verbatim>\<open>(( Name ))\<close> stays and \<^verbatim>\<open>((Name))\<close>, whose
  name is not in the header list, is replaced; the row's value is used as a replacement
  template, so the value \<^verbatim>\<open>$&\<close> puts the placeholder back; and a placeholder whose name
  is not a header is not always left intact: the header \<^verbatim>\<open>a))((b\<close> has the placeholder
  \<^verbatim>\<open>((a))((b))\<close>, so the placeholders \<^verbatim>\<open>((a))\<close> and \<^verbatim>\<open>((b))\<close>, neither of them named by
  a header, are replaced.
\<close>

theorem renderWithRow_trimmed_header_counterexample:
  "renderWithRow ''Hi (( Name )) ((Name))'' ['' Name ''] [''Ann''] None = Some ''Hi (( Name )) Ann''
   \<and> renderWithRow ''((Name))'' [''Name''] [''$&''] None = Some ''((Name))''
   \<and> renderWithRow ''((a))((b))'' [''a))((b''] [''v''] None = Some ''v''"
  by code_simp

text \<open>
  Claim C2, amended. For every template text, header list and row in which the value of
  every header is plain (none of \<^verbatim>\<open>$$\<close>, \<^verbatim>\<open>$&\<close>, \<^verbatim>\<open>$`\<close>, \<^verbatim>\<open>$'\<close>; any other dollar
  sign is allowed), \<open>renderWithRow\<close> without a signature takes the headers in order and,
  for the header at index \<open>i\<close>, replaces every literal occurrence of the placeholder of the
  header's trimmed text (not case-folded), in the text as the earlier headers left it, with
  the row's value at \<open>i\<close>, or with the empty string when the row is shorter. And an
  occurrence of a placeholder \<^verbatim>\<open>((name))\<close> that overlaps with the placeholder of no
  trimmed header is left intact, the text before it and the text after it being rendered
  as they are on their own; this is so in particular when neither the name nor any
  trimmed header has a round bracket and the name is not a trimmed header.
\<close>

theorem renderWithRow_substitutes_trimmed_headers:
  assumes "\<forall>i<length headers. plain (cell_text r i)"
  shows "renderWithRow text0 headers r None = Some (render_spec text0 headers 0 r)
       \<and> ((\<forall>h\<in>set headers. \<not> overlap (placeholder (trim h)) (placeholder name)) \<longrightarrow>
            (\<exists>a b. renderWithRow pre headers r None = Some a
                 \<and> renderWithRow post headers r None = Some b
                 \<and> renderWithRow (pre @ placeholder name @ post) headers r None
                     = Some (a @ placeholder name @ b)))
       \<and> (bracket_free name \<and> (\<forall>h\<in>set headers. bracket_free (trim h) \<and> trim h \<noteq> name) \<longrightarrow>
            (\<exists>a b. renderWithRow pre headers r None = Some a
                 \<and> renderWithRow post headers r None = Some b
                 \<and> renderWithRow (pre @ placeholder name @ post) headers r None
                     = Some (a @ placeholder name @ b)))"
proof -
  have eq: "renderWithRow t headers r None = Some (render_spec t headers 0 r)" for t
    using assms by (rule renderWithRow_plain)
  have around: "\<exists>a b. renderWithRow pre headers r None = Some a
                 \<and> renderWithRow post headers r None = Some b
                 \<and> renderWithRow (pre @ placeholder name @ post) headers r None
                     = Some (a @ placeholder name @ b)"
    if "\<forall>h\<in>set headers. \<not> overlap (placeholder (trim h)) (placeholder name)"
    using render_spec_around [OF that, of pre post 0 r] by (simp add: eq)
  have "\<forall>h\<in>set headers. \<not> overlap (placeholder (trim h)) (placeholder name)"
    if "bracket_free name" "\<forall>h\<in>set headers. bracket_free (trim h) \<and> trim h \<noteq> name"
    using that placeholders_apart by blast
  with around eq show ?thesis by blast
qed

theorem renderWithRow_substitutes_witness:
  "renderWithRow ''Hi ((Name)), fee ((Fee))'' [''Name'', '' Fee''] [''Ann'', ''$5.00''] None
     = Some ''Hi Ann, fee $5.00''
   \<and> renderWithRow ''Hi ((Name)) ((x)) ((Fee))'' [''Name'', '' Fee''] [''Ann'', ''$5.00''] None
     = Some ''Hi Ann ((x)) $5.00''"
proof -
  let ?hs = "[''Name'', '' Fee'']" and ?r = "[''Ann'', ''$5.00'']"
  have plain: "\<forall>i<length ?hs. plain (cell_text ?r i)"
  proof -
    have "plain ''Ann''" "plain ''$5.00''" by code_simp+
    then show ?thesis by (simp add: All_less_Suc cell_text_def cell_def)
  qed
  have spec: "render_spec ''Hi ((Name)), fee ((Fee))'' ?hs 0 ?r = ''Hi Ann, fee $5.00''"
    by code_simp
  have free: "bracket_free ''x'' \<and> (\<forall>h\<in>set ?hs. bracket_free (trim h) \<and> trim h \<noteq> ''x'')"
    by code_simp
  have pre: "renderWithRow ''Hi ((Name)) '' ?hs ?r None = Some ''Hi Ann ''"
    and post: "renderWithRow '' ((Fee))'' ?hs ?r None = Some '' $5.00''"
    by code_simp+
  have whole: "''Hi ((Name)) '' @ placeholder ''x'' @ '' ((Fee))'' = ''Hi ((Name)) ((x)) ((Fee))''"
    and out: "''Hi Ann '' @ placeholder ''x'' @ '' $5.00'' = ''Hi Ann ((x)) $5.00''"
    by (simp_all add: placeholder_def)
  note inst = renderWithRow_substitutes_trimmed_headers [OF plain]
  have A: "renderWithRow ''Hi ((Name)), fee ((Fee))'' ?hs ?r None
             = Some (render_spec ''Hi ((Name)), fee ((Fee))'' ?hs 0 ?r)"
    using inst [of "''Hi ((Name)), fee ((Fee))''"] by blast
  obtain a b where a: "renderWithRow ''Hi ((Name)) '' ?hs ?r None = Some a"
    and b: "renderWithRow '' ((Fee))'' ?hs ?r None = Some b"
    and ab: "renderWithRow (''Hi ((Name)) '' @ placeholder ''x'' @ '' ((Fee))'') ?hs ?r None
               = Some (a @ placeholder ''x'' @ b)"
    using inst [of "[]" "''x''" "''Hi ((Name)) ''" "'' ((Fee))''"] free by blast
  from a pre have a': "a = ''Hi Ann ''" by (simp only: option.inject)
  from b post have b': "b = '' $5.00''" by (simp only: option.inject)
  have B: "renderWithRow ''Hi ((Name)) ((x)) ((Fee))'' ?hs ?r None = Some ''Hi Ann ((x)) $5.00''"
    using ab unfolding a' b' whole out .
  show ?thesis
    unfolding A spec B by (rule conjI) (rule refl)+
qed

text \<open>
  Claim C3 fails as stated. A value can bring in the placeholder of a header that was
  already handled (the first two lines); the text around a placeholder can close up with
  the value to a new placeholder, when the text has brackets next to the placeholder
  (lines three and four), also with an empty value for a missing cell (lines five and
  six) or with a value that ends with an opening bracket (lines seven and eight): the
  output then has a placeholder of a header that is present, and a second pass changes
  it. And a placeholder of an absent header does not always remain: the header \<^verbatim>\<open>Zed)\<close>
  has the placeholder \<^verbatim>\<open>((Zed)))\<close>, which takes \<^verbatim>\<open>((Zed))\<close> with it (the last line).
\<close>

theorem renderWithRow_not_idempotent_counterexample:
  "renderWithRow ''((A))'' [''B'', ''A''] [''x'', ''((B))''] None = Some ''((B))''
   \<and> renderWithRow ''((B))'' [''B'', ''A''] [''x'', ''((B))''] None = Some ''x''
   \<and> renderWithRow ''((((A))))'' [''A''] [''A''] None = Some ''((A))''
   \<and> renderWithRow ''((A))'' [''A''] [''A''] None = Some ''A''
   \<and> renderWithRow ''(((A))(B))'' [''B'', ''A''] [''x''] None = Some ''((B))''
   \<and> renderWithRow ''((B))'' [''B'', ''A''] [''x''] None = Some ''x''
   \<and> renderWithRow ''((A))(B))'' [''B'', ''A''] [''x'', ''(''] None = Some ''((B))''
   \<and> renderWithRow ''((B))'' [''B'', ''A''] [''x'', ''(''] None = Some ''x''
   \<and> renderWithRow ''((Zed)))'' [''Zed)''] [''x''] None = Some ''x''"
  by code_simp

text \<open>
  Claim C3, amended. For every well-formed template (literal texts without a double
  opening bracket and not ending with an opening bracket, placeholders whose names have
  no round bracket), every header list in which the first round bracket of a trimmed
  header, if there is one, is an opening bracket, and every row in which the value of
  every header, the empty string of a missing cell included, has no double opening
  bracket, does not end with an opening bracket and is plain: the output of
  \<open>renderWithRow\<close> is the template with every placeholder whose name is a trimmed header
  replaced by the value of the first such header, and with every other placeholder as it
  was; the output has no occurrence of the placeholder of any header; and rendering the
  output a second time with the same headers and row returns it unchanged.
\<close>

theorem renderWithRow_idempotent_on_templates:
  assumes "\<forall>p\<in>set pieces. well_formed p"
    and "\<forall>h\<in>set headers. key_ok (trim h)"
    and "\<forall>i<length headers. literal_ok (cell_text r i) \<and> plain (cell_text r i)"
  shows "renderWithRow (shown pieces) headers r None = Some (shown (map (fill headers 0 r) pieces))
       \<and> (\<forall>h\<in>set headers. \<not> sublist (placeholder (trim h)) (shown (map (fill headers 0 r) pieces)))
       \<and> (\<forall>n. n \<notin> trim ` set headers \<longrightarrow> fill headers 0 r (Hole n) = Hole n)
       \<and> renderWithRow (shown (map (fill headers 0 r) pieces)) headers r None
           = Some (shown (map (fill headers 0 r) pieces))"
proof -
  let ?out = "shown (map (fill headers 0 r) pieces)"
  have lit: "\<forall>j<length headers. literal_ok (cell_text r (0 + j))"
    and plain: "\<forall>i<length headers. plain (cell_text r i)"
    using assms(3) by simp_all
  have first: "renderWithRow (shown pieces) headers r None = Some ?out"
    using renderWithRow_plain [OF plain] render_spec_shown [OF assms(1,2) lit] by simp
  have wf: "\<forall>p\<in>set (map (fill headers 0 r) pieces). well_formed p"
    using assms(1) well_formed_fill [OF _ lit] by auto
  have clean: "\<forall>h\<in>set headers. \<not> sublist (placeholder (trim h)) ?out"
  proof
    fix h assume h: "h \<in> set headers"
    with assms(2) have "key_ok (trim h)" by blast
    then show "\<not> sublist (placeholder (trim h)) ?out"
      using wf fill_no_header_hole [OF h] by (rule shown_clean)
  qed
  have absent: "\<forall>n. n \<notin> trim ` set headers \<longrightarrow> fill headers 0 r (Hole n) = Hole n"
    by (simp add: value_of_None [THEN iffD2])
  have again: "renderWithRow ?out headers r None = Some ?out"
    using render_headers_unchanged [OF clean] by (simp add: renderWithRow_None)
  from first clean absent again show ?thesis by blast
qed

theorem renderWithRow_idempotent_witness:
  "renderWithRow ''Hi (dear) ((Name)) <((Email))> ((Zed))/((Fax))''
       [''Name'', ''Email'', ''Phone (mobile)'', ''Fax''] [''Ann'', ''ann@x.com''] None
     = Some ''Hi (dear) Ann <ann@x.com> ((Zed))/''
   \<and> renderWithRow ''Hi (dear) Ann <ann@x.com> ((Zed))/''
       [''Name'', ''Email'', ''Phone (mobile)'', ''Fax''] [''Ann'', ''ann@x.com''] None
     = Some ''Hi (dear) Ann <ann@x.com> ((Zed))/''
   \<and> \<not> sublist ''((Name))'' ''Hi (dear) Ann <ann@x.com> ((Zed))/''
   \<and> \<not> sublist ''((Fax))'' ''Hi (dear) Ann <ann@x.com> ((Zed))/''"
proof -
  let ?hs = "[''Name'', ''Email'', ''Phone (mobile)'', ''Fax'']" and ?r = "[''Ann'', ''ann@x.com'']"
  let ?ps = "[Lit ''Hi (dear) '', Hole ''Name'', Lit '' <'', Hole ''Email'', Lit ''> '',
              Hole ''Zed'', Lit ''/'', Hole ''Fax'']"
  have wf: "\<forall>p\<in>set ?ps. well_formed p" by code_simp
  have keys: "\<forall>h\<in>set ?hs. key_ok (trim h)" by code_simp
  have cells: "\<forall>i<length ?hs. literal_ok (cell_text ?r i) \<and> plain (cell_text ?r i)"
  proof -
    have "literal_ok ''Ann''" "plain ''Ann''" "literal_ok ''ann@x.com''" "plain ''ann@x.com''"
      "literal_ok []" "plain []"
      by code_simp+
    then show ?thesis by (simp add: All_less_Suc cell_text_def cell_def)
  qed
  have src: "shown ?ps = ''Hi (dear) ((Name)) <((Email))> ((Zed))/((Fax))''"
    by code_simp
  have out: "shown (map (fill ?hs 0 ?r) ?ps) = ''Hi (dear) Ann <ann@x.com> ((Zed))/''"
    by code_simp
  have key1: "placeholder (trim ''Name'') = ''((Name))''"
    and key2: "placeholder (trim ''Fax'') = ''((Fax))''"
    by code_simp+
  from renderWithRow_idempotent_on_templates [OF wf keys cells]
  have first: "renderWithRow (shown ?ps) ?hs ?r None = Some (shown (map (fill ?hs 0 ?r) ?ps))"
    and clean: "\<forall>h\<in>set ?hs. \<not> sublist (placeholder (trim h)) (shown (map (fill ?hs 0 ?r) ?ps))"
    and again: "renderWithRow (shown (map (fill ?hs 0 ?r) ?ps)) ?hs ?r None
                  = Some (shown (map (fill ?hs 0 ?r) ?ps))"
    by blast+
  from clean have "\<not> sublist (placeholder (trim ''Name'')) (shown (map (fill ?hs 0 ?r) ?ps))"
    "\<not> sublist (placeholder (trim ''Fax'')) (shown (map (fill ?hs 0 ?r) ?ps))"
    by (simp_all only: list.set insert_iff ball_simps simp_thms)
  with first again show ?thesis
    unfolding src out key1 key2 by (intro conjI)
qed

subsection \<open>Message builder\<close>

lemma prefix_avoid_char: "x \<notin> set m \<Longrightarrow> prefix m (ys @ x # zs) = prefix m ys"
proof
  assume x: "x \<notin> set m" and "prefix m (ys @ x # zs)"
  then consider "prefix m ys" | us where "m = ys @ us" "prefix us (x # zs)"
    unfolding prefix_append by blast
  then show "prefix m ys"
  proof cases
    case 1
    then show ?thesis .
  next
    case 2
    then have "us = []" using x by (cases us) auto
    with 2 show ?thesis by simp
  qed
next
  assume "prefix m ys"
  then show "prefix m (ys @ x # zs)" by (simp add: prefix_def) (metis append.assoc)
qed

lemma occurrences_avoid_char:
  "m \<noteq> [] \<Longrightarrow> x \<notin> set m \<Longrightarrow> occurrences m (a @ x # b) = occurrences m a + occurrences m b"
proof (induction a)
  case Nil
  then show ?case by (cases m) auto
next
  case (Cons c a)
  have "prefix m ((c # a) @ x # b) = prefix m (c # a)"
    using Cons.prems(2) by (rule prefix_avoid_char)
  with Cons show ?case by simp
qed

lemma occurrences_snoc_avoid:
  "m \<noteq> [] \<Longrightarrow> x \<notin> set m \<Longrightarrow> occurrences m (a @ [x]) = occurrences m a"
  using occurrences_avoid_char [of m x a "[]"] by simp

lemma occurrences_pos_sublist: "0 < occurrences m s \<Longrightarrow> sublist m s"
  by (induction s) (auto simp: sublist_Cons_right split: if_splits)

lemma occurrences_zero_iff: "(occurrences m s = 0) = (\<not> sublist m s)"
  by (induction s) (auto simp: sublist_Cons_right)

lemma occurrences_missing_char: "x \<in> set m \<Longrightarrow> x \<notin> set s \<Longrightarrow> occurrences m s = 0"
  using set_mono_sublist [of m s] by (auto simp: occurrences_zero_iff)

lemma b64_char_in_alphabet: "b64_char n \<in> set b64_alphabet"
  unfolding b64_char_def by (rule nth_mem) (simp add: b64_alphabet_def)

lemma set_base64: "set (base64 bs) \<subseteq> set b64_alphabet \<union> {CHR ''=''}"
proof (induction bs rule: base64.induct)
  case 1
  show ?case by simp
next
  case (2 a)
  show ?case using b64_char_in_alphabet by simp
next
  case (3 a b)
  show ?case using b64_char_in_alphabet by simp
next
  case (4 a b c bs)
  then show ?case using b64_char_in_alphabet by auto
qed

lemma set_wrap76: "set (wrap76 s) \<subseteq> set s \<union> {CR, LF}"
proof (induction s rule: wrap76.induct)
  case 1
  show ?case by simp
next
  case (2 c cs)
  let ?m = "takeWhile (\<lambda>x. \<not> line_terminator x) (take 75 cs)"
  show ?case
  proof (cases "line_terminator c")
    case True
    with 2 show ?thesis by auto
  next
    case False
    have m: "set ?m \<subseteq> set cs"
      by (auto dest: set_takeWhileD in_set_takeD)
    have d: "set (drop (length ?m) cs) \<subseteq> set cs"
      by (rule set_drop_subset)
    have "set (wrap76 (drop (length ?m) cs)) \<subseteq> set cs \<union> {CR, LF}"
      using 2(2) [OF False] d by blast
    with False m show ?thesis
      by (auto simp: CRLF_def)
  qed
qed

lemma colon_not_base64: "CHR '':'' \<notin> set (wrap76 (base64 bs))"
proof -
  have "set (wrap76 (base64 bs)) \<subseteq> set b64_alphabet \<union> {CHR ''='', CR, LF}"
    using set_wrap76 [of "base64 bs"] set_base64 [of bs] by blast
  then show ?thesis
    by (auto simp: b64_alphabet_def CR_def LF_def)
qed

lemma occurrences_marker_base64: "occurrences attachment_marker (wrap76 (base64 bs)) = 0"
  by (rule occurrences_missing_char [OF _ colon_not_base64]) (simp add: attachment_marker_def)

lemma prefix_avoid_pair:
  assumes "\<not> sublist [x, y] m"
  shows "prefix m (ys @ x # y # zs) = prefix m (ys @ [x])"
proof
  assume "prefix m (ys @ x # y # zs)"
  then have "prefix m ((ys @ [x]) @ y # zs)" by simp
  then consider "prefix m (ys @ [x])" | us where "m = (ys @ [x]) @ us" "prefix us (y # zs)"
    unfolding prefix_append by blast
  then show "prefix m (ys @ [x])"
  proof cases
    case 1
    then show ?thesis .
  next
    case 2
    have "us = []"
    proof (cases us)
      case Nil
      then show ?thesis .
    next
      case (Cons u us')
      with 2 have "m = ys @ [x, y] @ us'" by simp
      then have "sublist [x, y] m" unfolding sublist_def by blast
      with assms show ?thesis ..
    qed
    with 2 show ?thesis by simp
  qed
next
  assume "prefix m (ys @ [x])"
  then have "prefix m ((ys @ [x]) @ y # zs)" using prefix_prefix by blast
  then show "prefix m (ys @ x # y # zs)" by simp
qed

lemma occurrences_avoid_pair:
  assumes "m \<noteq> []" and "\<not> sublist [x, y] m"
  shows "occurrences m (a @ x # y # b) = occurrences m (a @ [x]) + occurrences m (y # b)"
proof (induction a)
  case Nil
  have "prefix m ([] @ x # y # b) = prefix m ([] @ [x])"
    using assms(2) by (rule prefix_avoid_pair)
  with assms(1) show ?case by simp
next
  case (Cons c a)
  have "prefix m ((c # a) @ x # y # b) = prefix m ((c # a) @ [x])"
    using assms(2) by (rule prefix_avoid_pair)
  with Cons show ?case by simp
qed

lemma occurrences_snoc_last:
  assumes "m \<noteq> []" and "last m \<noteq> x"
  shows "occurrences m (a @ [x]) = occurrences m a"
proof (induction a)
  case Nil
  have "\<not> prefix m [x]"
    using assms by (cases m) auto
  with assms(1) show ?case by simp
next
  case (Cons c a)
  have "prefix m ((c # a) @ [x]) = prefix m (c # a)"
  proof
    assume "prefix m ((c # a) @ [x])"
    then consider "prefix m (c # a)" | us where "m = (c # a) @ us" "prefix us [x]"
      unfolding prefix_append by blast
    then show "prefix m (c # a)"
    proof cases
      case 1
      then show ?thesis .
    next
      case 2
      then have "us = [] \<or> us = [x]" by (cases us) auto
      with 2 assms(2) show ?thesis by auto
    qed
  next
    assume "prefix m (c # a)"
    then show "prefix m ((c # a) @ [x])" using prefix_prefix by blast
  qed
  with Cons show ?case by simp
qed

lemmas marker_simps =
  attachment_marker_def CRLF_def CR_def LF_def dquote_def occurrences_zero_iff [symmetric]

lemma marker_in_boundary:
  "\<not> sublist attachment_marker token
     \<Longrightarrow> occurrences attachment_marker (''mixed_'' @ token @ x # rest)
           = occurrences attachment_marker (token @ x # rest)"
  by (simp add: attachment_marker_def)

lemma count_closing_delimiter:
  assumes "\<not> sublist attachment_marker (boundary_token env)"
  shows "occurrences attachment_marker (''--'' @ boundary env @ ''--'' @ CRLF) = 0"
proof -
  let ?t = "boundary_token env"
  have pair: "\<not> sublist ''--'' attachment_marker"
    unfolding attachment_marker_def by code_simp
  have "occurrences attachment_marker (?t @ CHR ''-'' # CHR ''-'' # CRLF)
          = occurrences attachment_marker (?t @ ''-'') + occurrences attachment_marker (CHR ''-'' # CRLF)"
    by (rule occurrences_avoid_pair [OF _ pair]) (simp add: attachment_marker_def)
  also have "occurrences attachment_marker (?t @ ''-'') = occurrences attachment_marker ?t"
    by (rule occurrences_snoc_last) (simp_all add: attachment_marker_def)
  also have "occurrences attachment_marker (CHR ''-'' # CRLF) = 0"
    by (simp add: marker_simps)
  finally have "occurrences attachment_marker (?t @ CHR ''-'' # CHR ''-'' # CRLF) = 0"
    using assms by (simp add: occurrences_zero_iff)
  then show ?thesis
    by (simp add: boundary_def attachment_marker_def)
qed

lemma count_attachment_part:
  assumes "readFileSync env p = Some data"
    and "\<not> sublist attachment_marker (boundary_token env)"
    and "\<not> sublist attachment_marker (basename env p)"
    and "\<forall>t. mime_lookup env (basename env p) = Some t \<longrightarrow> \<not> sublist attachment_marker t"
  shows "occurrences attachment_marker (attachment_part env p @ rest)
           = 1 + occurrences attachment_marker rest"
proof -
  define ctype where "ctype = (case mime_lookup env (basename env p) of
                          Some t \<Rightarrow> if t = [] then ''application/octet-stream'' else t
                        | None \<Rightarrow> ''application/octet-stream'')"
  have ctype: "occurrences attachment_marker ctype = 0"
    using assms(4) unfolding ctype_def occurrences_zero_iff
    by (auto split: option.splits simp: attachment_marker_def) code_simp+
  have tok: "occurrences attachment_marker (boundary_token env) = 0"
    and name: "occurrences attachment_marker (basename env p) = 0"
    using assms(2,3) by (simp_all add: occurrences_zero_iff)
  have b64: "occurrences attachment_marker (wrap76 (base64 data)) = 0"
    by (rule occurrences_marker_base64)
  have part: "attachment_part env p =
      ''--mixed_'' @ boundary_token env @ CRLF
        @ ''Content-Type: '' @ ctype @ ''; name='' @ [dquote] @ basename env p @ [dquote] @ CRLF
        @ ''Content-Transfer-Encoding: base64'' @ CRLF
        @ ''Content-Disposition: attachment; filename='' @ [dquote] @ basename env p @ [dquote]
        @ CRLF @ CRLF
        @ wrap76 (base64 data) @ CRLF"
    using assms(1) by (simp add: attachment_part_def boundary_def ctype_def Let_def)
  have avoid: "\<And>x a b. x \<in> {CHR 0x0D, CHR 0x0A, CHR 0x22, CHR '';''}
          \<Longrightarrow> occurrences ''Content-Disposition: attachment'' (a @ x # b)
            = occurrences ''Content-Disposition: attachment'' a
                + occurrences ''Content-Disposition: attachment'' b"
    by (rule occurrences_avoid_char) auto
  show ?thesis
    unfolding part
    using tok name ctype b64
    by (simp add: attachment_marker_def CRLF_def CR_def LF_def dquote_def avoid)
qed

lemma count_attachment_parts:
  assumes "\<forall>p\<in>set ps. readFileSync env p \<noteq> None
             \<and> \<not> sublist attachment_marker (basename env p)
             \<and> (\<forall>t. mime_lookup env (basename env p) = Some t \<longrightarrow> \<not> sublist attachment_marker t)"
    and "\<not> sublist attachment_marker (boundary_token env)"
  shows "occurrences attachment_marker (concat (map (attachment_part env) ps) @ rest)
           = length ps + occurrences attachment_marker rest"
  using assms(1)
proof (induction ps)
  case Nil
  show ?case by simp
next
  case (Cons p ps)
  then obtain data where data: "readFileSync env p = Some data" by auto
  have "occurrences attachment_marker
          (attachment_part env p @ (concat (map (attachment_part env) ps) @ rest))
        = 1 + occurrences attachment_marker (concat (map (attachment_part env) ps) @ rest)"
    using Cons.prems assms(2) by (intro count_attachment_part [OF data]) auto
  with Cons show ?case by simp
qed

lemma count_first_headers:
  assumes "\<not> sublist attachment_marker (text_or_empty (from_addr e))"
    and "\<not> sublist attachment_marker (to_addr e)"
    and "\<not> sublist attachment_marker (subject e)"
  shows "occurrences attachment_marker (join_str CRLF (first_headers e @ [line]) @ rest)
           = occurrences attachment_marker (line @ rest)"
proof -
  have avoid: "\<And>a b. occurrences ''Content-Disposition: attachment'' (a @ CHR 0x0D # b)
            = occurrences ''Content-Disposition: attachment'' a
                + occurrences ''Content-Disposition: attachment'' b"
    by (rule occurrences_avoid_char) auto
  have zero: "occurrences attachment_marker (to_addr e) = 0"
      "occurrences attachment_marker (subject e) = 0"
      "truthy (from_addr e) \<Longrightarrow> occurrences attachment_marker (the (from_addr e)) = 0"
    using assms by (simp_all add: occurrences_zero_iff text_or_empty_def)
  show ?thesis
    using zero
    by (simp add: first_headers_def attachment_marker_def CRLF_def CR_def LF_def avoid)
qed

lemma count_multipart:
  assumes "attachments e = Some (p # ps)"
    and "\<forall>q\<in>set (p # ps). readFileSync env q \<noteq> None"
    and "marker_free attachment_marker env e"
  shows "occurrences attachment_marker (buildRawEmail env e) = length (p # ps)"
proof -
  have avoid: "\<And>x a b. x \<in> {CHR 0x0D, CHR 0x22}
          \<Longrightarrow> occurrences ''Content-Disposition: attachment'' (a @ x # b)
            = occurrences ''Content-Disposition: attachment'' a
                + occurrences ''Content-Disposition: attachment'' b"
    by (rule occurrences_avoid_char) auto
  from assms(3) have tok: "\<not> sublist attachment_marker (boundary_token env)"
    and body0: "occurrences attachment_marker (text_or_empty (body_text e)) = 0"
    and hdr: "\<not> sublist attachment_marker (text_or_empty (from_addr e))"
      "\<not> sublist attachment_marker (to_addr e)" "\<not> sublist attachment_marker (subject e)"
    by (simp_all add: marker_free_def occurrences_zero_iff)
  have parts: "\<forall>q\<in>set (p # ps). readFileSync env q \<noteq> None
             \<and> \<not> sublist attachment_marker (basename env q)
             \<and> (\<forall>t. mime_lookup env (basename env q) = Some t \<longrightarrow> \<not> sublist attachment_marker t)"
    using assms by (simp add: marker_free_def)
  have tail: "occurrences attachment_marker
          (concat (map (attachment_part env) (p # ps)) @ ''--'' @ boundary env @ ''--'' @ CRLF)
        = length (p # ps)"
    using count_attachment_parts [OF parts tok] count_closing_delimiter [OF tok] by simp
  have tok0: "occurrences attachment_marker (boundary_token env) = 0"
    using tok by (simp add: occurrences_zero_iff)
  have "occurrences attachment_marker (buildRawEmail env e)
      = occurrences attachment_marker
          (concat (map (attachment_part env) (p # ps)) @ ''--'' @ boundary env @ ''--'' @ CRLF)"
    unfolding buildRawEmail_def assms(1) option.case list.case append_assoc
    unfolding count_first_headers [OF hdr]
    using tok0 body0
    by (simp add: attachment_marker_def boundary_def CRLF_def CR_def LF_def dquote_def avoid
          del: concat.simps list.map)
  with tail show ?thesis by simp
qed

lemma count_plain:
  assumes "attachments e = None \<or> attachments e = Some []"
    and "m = delimiter_marker \<or> m = boundary_parameter \<or> m = attachment_marker"
    and "marker_free m env e"
  shows "occurrences m (buildRawEmail env e) = 0"
proof -
  have payload: "buildRawEmail env e =
      join_str CRLF
              (first_headers e
                 @ [''Content-Type: text/plain; charset='' @ [dquote] @ ''UTF-8'' @ [dquote],
                    ''Content-Transfer-Encoding: 7bit''])
            @ CRLF @ CRLF @ text_or_empty (body_text e)"
    using assms(1) by (auto simp: buildRawEmail_def)
  have zero: "occurrences m (to_addr e) = 0" "occurrences m (subject e) = 0"
      "occurrences m (text_or_empty (body_text e)) = 0"
      "truthy (from_addr e) \<Longrightarrow> occurrences m (the (from_addr e)) = 0"
    using assms(3) by (simp_all add: marker_free_def occurrences_zero_iff text_or_empty_def)
  have avoid: "\<And>a b. m \<noteq> [] \<Longrightarrow> CHR 0x0D \<notin> set m
      \<Longrightarrow> occurrences m (a @ CHR 0x0D # b) = occurrences m a + occurrences m b"
    by (rule occurrences_avoid_char)
  from assms(2) show ?thesis
  proof (elim disjE)
    assume m: "m = delimiter_marker"
    show ?thesis
      unfolding payload using zero avoid
      by (simp add: m delimiter_marker_def first_headers_def CRLF_def CR_def LF_def dquote_def)
  next
    assume m: "m = boundary_parameter"
    show ?thesis
      unfolding payload using zero avoid
      by (simp add: m boundary_parameter_def first_headers_def CRLF_def CR_def LF_def dquote_def)
  next
    assume m: "m = attachment_marker"
    show ?thesis
      unfolding payload using zero avoid
      by (simp add: m attachment_marker_def first_headers_def CRLF_def CR_def LF_def dquote_def)
  qed
qed

text \<open>
  Claim C5 fails as stated for every body: the builder copies the caller's texts into
  the payload as they are, so a body that itself holds the text of the marker adds an
  occurrence. With one readable attachment and that body the payload has two occurrences
  of \<^verbatim>\<open>Content-Disposition: attachment\<close>, not one.
\<close>

theorem buildRawEmail_body_marker_counterexample:
  "occurrences ''Content-Disposition: attachment''
     (buildRawEmail demo_env
        \<lparr>from_addr = None, to_addr = ''a@x.com'', subject = ''Hi'',
         body_text = Some ''Content-Disposition: attachment'',
         attachments = Some [''/tmp/a.txt'']\<rparr>) = 2
   \<and> readFileSync demo_env ''/tmp/a.txt'' = Some ''hi''"
  by (simp add: buildRawEmail_def demo_env_def attachment_part_def boundary_def first_headers_def
        text_or_empty_def truthy_def CRLF_def CR_def LF_def dquote_def Let_def b64_char_def
        b64_alphabet_def line_terminator_def)

text \<open>
  Claim C5, amended. With an absent or empty attachment list the payload of
  \<open>buildRawEmail\<close> is the single text/plain message, in which no boundary delimiter and
  no boundary parameter occurs unless the caller's own sender, recipient, subject or body
  holds one; and with a list \<open>ps\<close> of attachment paths that can all be read the payload
  has exactly \<open>length ps\<close> occurrences of \<^verbatim>\<open>Content-Disposition: attachment\<close>, provided
  that text occurs in none of sender, recipient, subject, body, boundary token, and the
  base names and MIME types of the attachments.
\<close>

theorem buildRawEmail_markers:
  "(attachments e = None \<or> attachments e = Some [] \<longrightarrow>
      (marker_free delimiter_marker env e \<longrightarrow> \<not> sublist delimiter_marker (buildRawEmail env e))
      \<and> (marker_free boundary_parameter env e \<longrightarrow> \<not> sublist boundary_parameter (buildRawEmail env e)))
   \<and> (attachments e = Some ps \<and> (\<forall>p\<in>set ps. readFileSync env p \<noteq> None)
        \<and> marker_free attachment_marker env e \<longrightarrow>
      occurrences attachment_marker (buildRawEmail env e) = length ps)"
proof (intro conjI impI)
  assume "attachments e = None \<or> attachments e = Some []" "marker_free delimiter_marker env e"
  then show "\<not> sublist delimiter_marker (buildRawEmail env e)"
    using count_plain [of e delimiter_marker env] by (simp add: occurrences_zero_iff)
next
  assume "attachments e = None \<or> attachments e = Some []" "marker_free boundary_parameter env e"
  then show "\<not> sublist boundary_parameter (buildRawEmail env e)"
    using count_plain [of e boundary_parameter env] by (simp add: occurrences_zero_iff)
next
  assume a: "attachments e = Some ps \<and> (\<forall>p\<in>set ps. readFileSync env p \<noteq> None)
        \<and> marker_free attachment_marker env e"
  show "occurrences attachment_marker (buildRawEmail env e) = length ps"
  proof (cases ps)
    case Nil
    with a show ?thesis
      using count_plain [of e attachment_marker env] by simp
  next
    case (Cons p ps')
    with a show ?thesis
      using count_multipart [of e p ps' env] by simp
  qed
qed

theorem buildRawEmail_markers_witness:
  "occurrences attachment_marker
     (buildRawEmail demo_env
        \<lparr>from_addr = Some ''me@x.com'', to_addr = ''a@x.com'', subject = ''Hi'',
         body_text = Some ''Body'', attachments = Some [''/tmp/a.txt'', ''/tmp/b.bin'']\<rparr>) = 2
   \<and> \<not> sublist delimiter_marker
        (buildRawEmail demo_env
          \<lparr>from_addr = Some ''me@x.com'', to_addr = ''a@x.com'', subject = ''Hi'',
           body_text = Some ''Body'', attachments = Some []\<rparr>)
   \<and> \<not> sublist boundary_parameter
        (buildRawEmail demo_env
          \<lparr>from_addr = Some ''me@x.com'', to_addr = ''a@x.com'', subject = ''Hi'',
           body_text = Some ''Body'', attachments = Some []\<rparr>)"
proof -
  let ?two = "\<lparr>from_addr = Some ''me@x.com'', to_addr = ''a@x.com'', subject = ''Hi'',
         body_text = Some ''Body'', attachments = Some [''/tmp/a.txt'', ''/tmp/b.bin'']\<rparr>"
  let ?none = "\<lparr>from_addr = Some ''me@x.com'', to_addr = ''a@x.com'', subject = ''Hi'',
         body_text = Some ''Body'', attachments = Some []\<rparr>"
  have readable: "\<forall>p\<in>set [''/tmp/a.txt'', ''/tmp/b.bin'']. readFileSync demo_env p \<noteq> None"
    by (simp add: demo_env_def)
  have free2: "marker_free attachment_marker demo_env ?two"
    by (simp add: marker_free_def demo_env_def attachment_marker_def text_or_empty_def truthy_def
          sublist_code)
  have free0: "marker_free delimiter_marker demo_env ?none" "marker_free boundary_parameter demo_env ?none"
    by (simp_all add: marker_free_def demo_env_def delimiter_marker_def boundary_parameter_def
          text_or_empty_def truthy_def sublist_code)
  have A: "occurrences attachment_marker (buildRawEmail demo_env ?two) = length [''/tmp/a.txt'', ''/tmp/b.bin'']"
    using buildRawEmail_markers [where e = ?two and ps = "[''/tmp/a.txt'', ''/tmp/b.bin'']" and env = demo_env] readable free2
    by simp
  have B: "\<not> sublist delimiter_marker (buildRawEmail demo_env ?none)"
      "\<not> sublist boundary_parameter (buildRawEmail demo_env ?none)"
    using buildRawEmail_markers [where e = ?none and ps = "[]" and env = demo_env] free0 by simp_all
  from A B show ?thesis by simp
qed

subsection \<open>Sheet status writer\<close>

lemma findIndex_bounds: "- 1 \<le> findIndex P xs \<and> findIndex P xs < int (length xs)"
  by (induction xs) (auto simp: Let_def)

lemma findIndex_none_iff: "(findIndex P xs = - 1) = (\<forall>x\<in>set xs. \<not> P x)"
proof (induction xs)
  case Nil
  show ?case by simp
next
  case (Cons x xs)
  have "- 1 \<le> findIndex P xs" using findIndex_bounds [of P xs] by simp
  with Cons show ?case by (auto simp: Let_def)
qed

lemma findIndex_append_new:
  "\<forall>x\<in>set xs. \<not> P x \<Longrightarrow> P y \<Longrightarrow> findIndex P (xs @ [y]) = int (length xs)"
  by (induction xs) (auto simp: Let_def)

lemma is_status_header_Status: "is_status_header ''Status''"
  by (simp add: is_status_header_def trim_def is_space_def toLowerCase_def lower_char_def upper_latin_def lower_latin_def)

lemma ensureStatusColumn_found:
  "findIndex is_status_header hs \<noteq> - 1
     \<Longrightarrow> ensureStatusColumn service sid title hs
           = \<lparr>column_index = findIndex is_status_header hs, headers_after = hs, updates = []\<rparr>"
  unfolding ensureStatusColumn_def Let_def by (simp only: if_False)

lemma ensureStatusColumn_absent:
  assumes "findIndex is_status_header hs = - 1"
  shows "headers_after (ensureStatusColumn service sid title hs) = hs @ [''Status'']"
    and "column_index (ensureStatusColumn service sid title hs) = - 1
         \<or> column_index (ensureStatusColumn service sid title hs) = int (length hs)"
  unfolding ensureStatusColumn_def Let_def using assms
  by (simp_all only: if_True) (simp_all split: if_splits)

text \<open>
  What two calls of \<open>ensureStatusColumn\<close> on the same header list do, whatever the sheets
  service answers: the second call leaves the list as the first left it and makes no call
  to the service; the first call appends \<^verbatim>\<open>Status\<close> exactly when no header is
  \<^verbatim>\<open>status\<close> after trimming and lower-casing; the second call returns the index of the
  first unless the first returned \<open>-1\<close>, and then it returns the index of the column that
  the first call appended to the list.
\<close>

theorem ensureStatusColumn_second_call:
  fixes first_service second_service :: sheets_service
    and sid title :: string and hs :: "string list"
  defines "r1 \<equiv> ensureStatusColumn first_service sid title hs"
  defines "r2 \<equiv> ensureStatusColumn second_service sid title (headers_after r1)"
  shows "headers_after r2 = headers_after r1 \<and> updates r2 = []
         \<and> (headers_after r1 = hs \<or> headers_after r1 = hs @ [''Status''])
         \<and> ((headers_after r1 \<noteq> hs) = (\<forall>h\<in>set hs. \<not> is_status_header h))
         \<and> (column_index r1 \<noteq> - 1 \<longrightarrow> column_index r2 = column_index r1)
         \<and> (column_index r1 = - 1 \<longrightarrow> column_index r2 = int (length hs))"
proof (cases "findIndex is_status_header hs = - 1")
  case True
  then have none: "\<forall>h\<in>set hs. \<not> is_status_header h"
    by (simp add: findIndex_none_iff)
  have after: "headers_after r1 = hs @ [''Status'']"
    and idx: "column_index r1 = - 1 \<or> column_index r1 = int (length hs)"
    unfolding r1_def by (rule ensureStatusColumn_absent [OF True])+
  have found: "findIndex is_status_header (hs @ [''Status'']) = int (length hs)"
    using findIndex_append_new [of hs is_status_header "''Status''"] none is_status_header_Status
    by blast
  then have "findIndex is_status_header (hs @ [''Status'']) \<noteq> - 1" by simp
  then have "r2 = \<lparr>column_index = findIndex is_status_header (hs @ [''Status'']),
                  headers_after = hs @ [''Status''], updates = []\<rparr>"
    unfolding r2_def after by (rule ensureStatusColumn_found)
  then have r2: "column_index r2 = int (length hs)" "headers_after r2 = hs @ [''Status'']"
      "updates r2 = []"
    using found by simp_all
  show ?thesis
    unfolding r2 after using idx none by auto
next
  case False
  then have r1: "r1 = \<lparr>column_index = findIndex is_status_header hs, headers_after = hs, updates = []\<rparr>"
    unfolding r1_def by (rule ensureStatusColumn_found)
  then have h1: "headers_after r1 = hs" and c1: "column_index r1 = findIndex is_status_header hs"
    by simp_all
  have "r2 = \<lparr>column_index = findIndex is_status_header hs, headers_after = hs, updates = []\<rparr>"
    unfolding r2_def h1 using False by (rule ensureStatusColumn_found)
  then have r2: "column_index r2 = findIndex is_status_header hs" "headers_after r2 = hs"
      "updates r2 = []"
    by simp_all
  have some: "\<not> (\<forall>h\<in>set hs. \<not> is_status_header h)"
    using False by (simp add: findIndex_none_iff)
  show ?thesis
    unfolding r2 h1 c1 using False some by auto
qed

text \<open>
  Claim C6 says that the second of two calls on the same header list returns the column
  index of the first. The code breaks this when the first call's write of the header row
  fails: it has pushed \<^verbatim>\<open>Status\<close> onto the caller's list before the write and leaves it
  there, so the first call returns \<open>-1\<close> (its comment: signal we cannot write) and the
  second call, finding the pushed header, returns the index \<open>2\<close> of a column that the
  sheet does not have.
\<close>

theorem ensureStatusColumn_failed_write_then_index:
  "column_index (ensureStatusColumn (\<lambda>request. False) ''sheet1'' ''Sheet1'' [''Name'', ''Email'']) = - 1
   \<and> headers_after (ensureStatusColumn (\<lambda>request. False) ''sheet1'' ''Sheet1'' [''Name'', ''Email''])
       = [''Name'', ''Email'', ''Status'']
   \<and> column_index (ensureStatusColumn (\<lambda>request. False) ''sheet1'' ''Sheet1''
        [''Name'', ''Email'', ''Status'']) = 2"
proof -
  have no: "\<not> is_status_header ''Name''" "\<not> is_status_header ''Email''"
    and yes: "is_status_header ''Status''"
    by (simp_all add: is_status_header_def trim_def is_space_def toLowerCase_def lower_char_def upper_latin_def lower_latin_def)
  have first: "findIndex is_status_header [''Name'', ''Email''] = - 1"
    and second: "findIndex is_status_header [''Name'', ''Email'', ''Status''] = 2"
    using no yes by (simp_all add: Let_def)
  from second have "findIndex is_status_header [''Name'', ''Email'', ''Status''] \<noteq> - 1"
    by simp
  from ensureStatusColumn_found [OF this] second
  have "column_index (ensureStatusColumn (\<lambda>request. False) ''sheet1'' ''Sheet1''
          [''Name'', ''Email'', ''Status'']) = 2"
    by simp
  moreover have "column_index (ensureStatusColumn (\<lambda>request. False) ''sheet1'' ''Sheet1'' [''Name'', ''Email'']) = - 1"
    and "headers_after (ensureStatusColumn (\<lambda>request. False) ''sheet1'' ''Sheet1'' [''Name'', ''Email''])
       = [''Name'', ''Email'', ''Status'']"
    unfolding ensureStatusColumn_def Let_def first by simp_all
  ultimately show ?thesis by (intro conjI)
qed

subsection \<open>Campaign runner\<close>

lemma pace_of_append: "pace_of (xs @ ys) = pace_of xs @ pace_of ys"
  by (induction xs rule: pace_of.induct) auto

lemma delivered_append: "delivered (xs @ ys) = delivered xs @ delivered ys"
  by (induction xs rule: delivered.induct) auto

lemma attempted_append: "attempted (xs @ ys) = attempted xs @ attempted ys"
  by (induction xs rule: attempted.induct) auto

lemma pace_of_updates [simp]: "pace_of (map SheetUpdate us) = []"
  by (induction us) auto

lemma delivered_updates [simp]: "delivered (map SheetUpdate us) = []"
  by (induction us) auto

lemma attempted_updates [simp]: "attempted (map SheetUpdate us) = []"
  by (induction us) auto

lemma pace_of_campaign_rows:
  "pace_of (fst (campaign_rows w p k sig i rows hs))
     = concat (map (paced w p) (delivered (fst (campaign_rows w p k sig i rows hs))))"
proof (induction rows arbitrary: i hs)
  case Nil
  show ?case by simp
next
  case (Cons r rows)
  obtain body where body: "renderWithRow (content p) hs r (Some sig) = Some body"
    using renderWithRow_total by blast
  show ?case
    using Cons.IH
    by (simp add: body Let_def pace_of_append delivered_append paced_def split: option.split)
qed

lemma executeCampaignRun_cases:
  assumes "\<And>e. P ([], Some e)"
    and "\<And>k sig rows hs e. snd (campaign_rows w p k sig 0 rows hs) = Some e
           \<Longrightarrow> P (campaign_rows w p k sig 0 rows hs)"
    and "\<And>k sig rows hs. snd (campaign_rows w p k sig 0 rows hs) = None
           \<Longrightarrow> P (fst (campaign_rows w p k sig 0 rows hs) @ [Telemetry (length rows)], None)"
  shows "P (executeCampaignRun w p)"
proof -
  have rows: "P (case campaign_rows w p k sig 0 rows hs of
                   (events, Some e) \<Rightarrow> (events, Some e)
                 | (events, None) \<Rightarrow> (events @ [Telemetry (length rows)], None))"
    for k sig rows hs
    using assms(2) [of k sig rows hs] assms(3) [of k sig rows hs]
    by (cases "campaign_rows w p k sig 0 rows hs") (auto split: option.split)
  show ?thesis
    unfolding executeCampaignRun_def Let_def
    by (auto simp: assms(1) rows split: sum.split list.split simp del: campaign_rows.simps)
qed

lemma pace_of_executeCampaignRun:
  "pace_of (fst (executeCampaignRun w p))
     = concat (map (paced w p) (delivered (fst (executeCampaignRun w p))))"
  by (rule executeCampaignRun_cases)
     (simp_all add: pace_of_campaign_rows pace_of_append delivered_append)

lemma jitter_bounds: "0 \<le> r \<Longrightarrow> r < 1 \<Longrightarrow> 0 \<le> jitter r \<and> jitter r < 2000"
  unfolding jitter_def by (simp add: floor_less_iff)

lemma Sleep_in_pace: "(Sleep ms \<in> set es) = (Paused ms \<in> set (pace_of es))"
  by (induction es rule: pace_of.induct) auto

lemma case_renderWithRow:
  "(case renderWithRow text0 hs r signature of None \<Rightarrow> a | Some body \<Rightarrow> f body)
     = f (the (renderWithRow text0 hs r signature))"
  using renderWithRow_total [of text0 hs r signature] by auto

lemma demo_email_column: "findEmailColumnIndex [''Name'', ''Email''] = 1"
  by (simp add: findEmailColumnIndex_def includes_str_def toLowerCase_def lower_char_def upper_latin_def lower_latin_def
        sublist_code Let_def)

lemmas run_simps =
  executeCampaignRun_def demo_world_def calm_world_def demo_params_def demo_email_column
  truthy_def cell_def cell_text_def case_renderWithRow Let_def
  attempted_append delivered_append pace_of_append

lemma campaign_rows_failed_send_last:
  "GmailSend j t raw (Some e) \<in> set (fst (campaign_rows w p k sig i rows hs))
     \<Longrightarrow> snd (campaign_rows w p k sig i rows hs) = Some e
         \<and> (\<exists>earlier. fst (campaign_rows w p k sig i rows hs) = earlier @ [GmailSend j t raw (Some e)])"
proof (induction rows arbitrary: i hs)
  case Nil
  then show ?case by simp
next
  case (Cons r rows)
  show ?case
  proof (cases "truthy (cell r k)")
    case False
    with Cons show ?thesis by simp
  next
    case True
    let ?raw = "toBase64Url (buildRawEmail (mail_world w i)
                             \<lparr>from_addr = sender p, to_addr = cell_text r k,
                              subject = mail_subject p,
                              body_text = Some (the (renderWithRow (content p) hs r (Some sig))),
                              attachments = Some (case attachmentsPaths p of Some ps \<Rightarrow> ps | None \<Rightarrow> [])\<rparr>)"
    show ?thesis
    proof (cases "gmail_send w i ?raw")
      case (Some e')
      with True Cons.prems show ?thesis
        by (auto simp: case_renderWithRow Let_def)
    next
      case None
      let ?status = "updateSheetStatus (sheets_update w) (sheetId p)
                       (if truthy (sheetTitle p) then the (sheetTitle p) else ''Sheet1'') hs i ''SENT''"
      let ?rest = "campaign_rows w p k sig (Suc i) rows (headers_left ?status)"
      have run: "campaign_rows w p k sig i (r # rows) hs
          = (GmailSend i (cell_text r k) ?raw None # map SheetUpdate (requests ?status)
               @ Sleep (pause_ms (delaySeconds p) (random_draw w i)) # fst ?rest, snd ?rest)"
        using True None by (simp add: case_renderWithRow Let_def)
      from Cons.prems have "GmailSend j t raw (Some e) \<in> set (fst ?rest)"
        unfolding run by auto
      from Cons.IH [OF this] obtain earlier where "snd ?rest = Some e"
        "fst ?rest = earlier @ [GmailSend j t raw (Some e)]"
        by blast
      then show ?thesis
        unfolding run by (simp del: campaign_rows.simps)
    qed
  qed
qed

text \<open>
  A send that the provider rejects is the last thing a run does: the run ends with the
  provider's error, and no later row is attempted and no completion is signalled.
\<close>

theorem send_failure_ends_run:
  assumes "GmailSend j t raw (Some e) \<in> set (fst (executeCampaignRun w p))"
  shows "snd (executeCampaignRun w p) = Some e
         \<and> (\<exists>earlier. fst (executeCampaignRun w p) = earlier @ [GmailSend j t raw (Some e)])"
  using assms
proof (induction rule: executeCampaignRun_cases [of _ w p])
  case (1 e')
  then show ?case by simp
next
  case (2 k sig rows hs e')
  then show ?case
    using campaign_rows_failed_send_last [of j t raw e w p k sig 0 rows hs] by simp
next
  case (3 k sig rows hs)
  then have "GmailSend j t raw (Some e) \<in> set (fst (campaign_rows w p k sig 0 rows hs))"
    by simp
  from campaign_rows_failed_send_last [OF this] 3(1) show ?case by simp
qed

text \<open>
  Claim C1 says that a row's send failure is caught and logged and that every later row
  is still attempted. The code breaks this: the send of \<open>executeCampaignRun\<close> stands
  outside any \<^verbatim>\<open>try\<close> (only the status write after it is guarded), so the error leaves
  the function. On a sheet of three rows with recipients where the provider rejects the
  second message, the run attempts the rows 0 and 1, delivers row 0 only, never attempts
  row 2, ends with the provider's error and signals no completion.
\<close>

theorem executeCampaignRun_send_failure_aborts:
  "attempted (fst (executeCampaignRun demo_world demo_params)) = [0, 1]
   \<and> delivered (fst (executeCampaignRun demo_world demo_params)) = [0]
   \<and> snd (executeCampaignRun demo_world demo_params) = Some (Error ''quota exceeded'')
   \<and> Telemetry 3 \<notin> set (fst (executeCampaignRun demo_world demo_params))"
  by (auto simp: run_simps)

lemma calm_run_delivered:
  "delivered (fst (executeCampaignRun calm_world (demo_params\<lparr>delaySeconds := d\<rparr>))) = [0, 1, 2]"
  by (simp add: run_simps)

lemma calm_draws: "\<forall>i. 0 \<le> random_draw calm_world i \<and> random_draw calm_world i < 1"
  by (simp add: calm_world_def demo_world_def)

text \<open>
  Claim C7 fails as stated for every run: with \<open>delaySeconds = 0\<close> the pause is not
  \<open>0 * 1000\<close> plus the jitter (1000 here) but 5000 plus the jitter.
\<close>

theorem pause_ignores_zero_delay_counterexample:
  "delaySeconds demo_params = Some 0
   \<and> \<lfloor>random_draw calm_world 0 * 2000\<rfloor> = 1000
   \<and> pace_of (fst (executeCampaignRun calm_world demo_params))
       = [Delivered 0, Paused 6000, Delivered 1, Paused 6000, Delivered 2, Paused 6000]"
  by (simp add: run_simps pause_ms_def delay_or_default_def jitter_def)

text \<open>
  Claim C7, amended. For every run whose \<open>delaySeconds\<close> is a number other than zero, and
  with \<^verbatim>\<open>Math.random()\<close> returning values from 0 up to but not including 1: after every
  accepted send and before the next one the run pauses once, for \<open>delaySeconds * 1000\<close>
  milliseconds plus a jitter that is a whole number from 0 up to but not including 2000.
\<close>

theorem pause_is_delay_plus_jitter:
  assumes "\<forall>i. 0 \<le> random_draw w i \<and> random_draw w i < 1"
    and "delaySeconds p = Some d" and "d \<noteq> 0"
  shows "pace_of (fst (executeCampaignRun w p))
           = concat (map (\<lambda>i. [Delivered i, Paused (d * 1000 + \<lfloor>random_draw w i * 2000\<rfloor>)])
               (delivered (fst (executeCampaignRun w p))))
         \<and> (\<forall>i. 0 \<le> \<lfloor>random_draw w i * 2000\<rfloor> \<and> \<lfloor>random_draw w i * 2000\<rfloor> < 2000)"
proof -
  have "paced w p = (\<lambda>i. [Delivered i, Paused (d * 1000 + \<lfloor>random_draw w i * 2000\<rfloor>)])"
    using assms(2,3) by (simp add: paced_def pause_ms_def delay_or_default_def jitter_def fun_eq_iff)
  then have "pace_of (fst (executeCampaignRun w p))
           = concat (map (\<lambda>i. [Delivered i, Paused (d * 1000 + \<lfloor>random_draw w i * 2000\<rfloor>)])
               (delivered (fst (executeCampaignRun w p))))"
    using pace_of_executeCampaignRun [of w p] by simp
  moreover have "\<forall>i. 0 \<le> \<lfloor>random_draw w i * 2000\<rfloor> \<and> \<lfloor>random_draw w i * 2000\<rfloor> < 2000"
    using assms(1) jitter_bounds by (simp add: jitter_def)
  ultimately show ?thesis by simp
qed

theorem pause_is_delay_plus_jitter_witness:
  "pace_of (fst (executeCampaignRun calm_world (demo_params\<lparr>delaySeconds := Some 3\<rparr>)))
     = [Delivered 0, Paused 4000, Delivered 1, Paused 4000, Delivered 2, Paused 4000]"
proof -
  have d: "delaySeconds (demo_params\<lparr>delaySeconds := Some 3\<rparr>) = Some 3" by simp
  have r: "\<lfloor>random_draw calm_world i * 2000\<rfloor> = 1000" for i
    by (simp add: calm_world_def demo_world_def)
  from pause_is_delay_plus_jitter [OF calm_draws d] show ?thesis
    by (simp add: calm_run_delivered r)
qed

text \<open>
  Claim C10. When \<open>delaySeconds\<close> is absent, \<^verbatim>\<open>null\<close> or 0, the run pauses after every
  accepted send for 5000 milliseconds plus the jitter: every pause of the run is at least
  5000 and less than 7000 milliseconds, never zero.
\<close>

theorem zero_delay_defaults_to_five_seconds:
  assumes "\<forall>i. 0 \<le> random_draw w i \<and> random_draw w i < 1"
    and "delaySeconds p = None \<or> delaySeconds p = Some 0"
  shows "pace_of (fst (executeCampaignRun w p))
           = concat (map (\<lambda>i. [Delivered i, Paused (5000 + \<lfloor>random_draw w i * 2000\<rfloor>)])
               (delivered (fst (executeCampaignRun w p))))
         \<and> (\<forall>ms. Sleep ms \<in> set (fst (executeCampaignRun w p)) \<longrightarrow> 5000 \<le> ms \<and> ms < 7000)"
proof -
  have paced: "paced w p = (\<lambda>i. [Delivered i, Paused (5000 + \<lfloor>random_draw w i * 2000\<rfloor>)])"
    using assms(2) by (auto simp: paced_def pause_ms_def delay_or_default_def jitter_def fun_eq_iff)
  then have pace: "pace_of (fst (executeCampaignRun w p))
           = concat (map (\<lambda>i. [Delivered i, Paused (5000 + \<lfloor>random_draw w i * 2000\<rfloor>)])
               (delivered (fst (executeCampaignRun w p))))"
    using pace_of_executeCampaignRun [of w p] by simp
  have "5000 \<le> ms \<and> ms < 7000" if "Sleep ms \<in> set (fst (executeCampaignRun w p))" for ms
  proof -
    from that have "Paused ms \<in> set (pace_of (fst (executeCampaignRun w p)))"
      by (simp add: Sleep_in_pace)
    then obtain i where "ms = 5000 + \<lfloor>random_draw w i * 2000\<rfloor>"
      unfolding pace by auto
    moreover have "0 \<le> \<lfloor>random_draw w i * 2000\<rfloor> \<and> \<lfloor>random_draw w i * 2000\<rfloor> < 2000"
      using assms(1) jitter_bounds [of "random_draw w i"] by (simp add: jitter_def)
    ultimately show ?thesis by simp
  qed
  with pace show ?thesis by blast
qed

theorem zero_delay_defaults_witness:
  "pace_of (fst (executeCampaignRun calm_world demo_params))
     = [Delivered 0, Paused 6000, Delivered 1, Paused 6000, Delivered 2, Paused 6000]
   \<and> pace_of (fst (executeCampaignRun calm_world (demo_params\<lparr>delaySeconds := None\<rparr>)))
     = [Delivered 0, Paused 6000, Delivered 1, Paused 6000, Delivered 2, Paused 6000]"
proof -
  have zero: "delaySeconds demo_params = None \<or> delaySeconds demo_params = Some 0"
    by (simp add: demo_params_def)
  have none: "delaySeconds (demo_params\<lparr>delaySeconds := None\<rparr>) = None
                \<or> delaySeconds (demo_params\<lparr>delaySeconds := None\<rparr>) = Some 0"
    by simp
  have same: "demo_params\<lparr>delaySeconds := Some 0\<rparr> = demo_params"
    by (simp add: demo_params_def)
  have r: "\<lfloor>random_draw calm_world i * 2000\<rfloor> = 1000" for i
    by (simp add: calm_world_def demo_world_def)
  from zero_delay_defaults_to_five_seconds [OF calm_draws zero]
    zero_delay_defaults_to_five_seconds [OF calm_draws none]
  show ?thesis
    using calm_run_delivered [of "Some 0"] calm_run_delivered [of None]
    by (simp add: r same)
qed

subsection \<open>Scheduler\<close>

lemma sched_inv_no_jobs: "sched_inv {} no_jobs"
  by (simp add: sched_inv_def no_jobs_def invoked_ids_def)

lemma sched_inv_schedule:
  assumes "sched_inv issued s" and "jid \<notin> issued"
  shows "sched_inv (insert jid issued) (snd (scheduleOneTimeCampaign jid now startAt p s))"
  using assms
  unfolding sched_inv_def scheduleOneTimeCampaign_def Let_def invoked_ids_def
  by (auto simp: less_Suc_eq split: if_splits) (metis domI subsetD less_irrefl)+

lemma sched_inv_fires:
  assumes "sched_inv issued s"
  shows "sched_inv issued (timer_fires h s)"
proof (cases "timers s h")
  case None
  with assms show ?thesis by (simp add: timer_fires_def)
next
  case (Some c)
  obtain ms i p where c: "c = (ms, i, p)" by (cases c) auto
  from assms Some c obtain j where j: "jobs s i = Some j" "timer j = h" and fresh: "i \<notin> invoked_ids s"
    unfolding sched_inv_def by blast
  have other: "i' \<noteq> i" if "timers s h' = Some (ms', i', p')" "h' \<noteq> h" for h' ms' i' p'
  proof
    assume "i' = i"
    with that(1) assms obtain j' where "jobs s i = Some j'" "timer j' = h'"
      unfolding sched_inv_def by blast
    with j that(2) show False by simp
  qed
  have after: "timer_fires h s = s\<lparr>timers := (timers s)(h := None),
      running := (running s)(h \<mapsto> (i, p)), invoked := invoked s @ [(i, p)]\<rparr>"
    using Some c by (simp add: timer_fires_def)
  have ids: "invoked_ids (timer_fires h s) = insert i (invoked_ids s)"
    unfolding after by (simp add: invoked_ids_def)
  have "i \<in> issued"
    using assms j unfolding sched_inv_def by blast
  with assms other show ?thesis
    unfolding sched_inv_def ids unfolding after
    by (auto split: if_splits)
qed

lemma sched_inv_settles:
  assumes "sched_inv issued s"
  shows "sched_inv issued (run_settles h s)"
proof (cases "running s h")
  case None
  with assms show ?thesis by (simp add: run_settles_def)
next
  case (Some c)
  obtain i p where c: "c = (i, p)" by (cases c) auto
  from assms Some c have ran: "i \<in> invoked_ids s"
    unfolding sched_inv_def by blast
  have other: "i' \<noteq> i" if "timers s h' = Some (ms', i', p')" for h' ms' i' p'
    using that assms ran unfolding sched_inv_def by blast
  have after: "run_settles h s = s\<lparr>running := (running s)(h := None), jobs := (jobs s)(i := None)\<rparr>"
    using Some c by (simp add: run_settles_def)
  have ids: "invoked_ids (run_settles h s) = invoked_ids s"
    unfolding after by (simp add: invoked_ids_def)
  from assms other show ?thesis
    unfolding sched_inv_def ids unfolding after
    by (auto split: if_splits)
qed

lemma sched_inv_cancel:
  assumes "sched_inv issued s"
  shows "sched_inv issued (snd (cancelScheduledJob jid s))"
proof (cases "jobs s jid")
  case None
  with assms show ?thesis by (simp add: cancelScheduledJob_def)
next
  case (Some job)
  have other: "i' \<noteq> jid" if "timers s h' = Some (ms', i', p')" "h' \<noteq> timer job" for h' ms' i' p'
  proof
    assume "i' = jid"
    with that(1) assms obtain j' where "jobs s jid = Some j'" "timer j' = h'"
      unfolding sched_inv_def by blast
    with Some that(2) show False by simp
  qed
  have after: "snd (cancelScheduledJob jid s)
      = s\<lparr>timers := (timers s)(timer job := None), jobs := (jobs s)(jid := None)\<rparr>"
    using Some by (simp add: cancelScheduledJob_def)
  have ids: "invoked_ids (snd (cancelScheduledJob jid s)) = invoked_ids s"
    unfolding after by (simp add: invoked_ids_def)
  from assms other show ?thesis
    unfolding sched_inv_def ids unfolding after
    by (auto split: if_splits)
qed

lemma replay_Nil [simp]: "replay s [] = s"
  by (simp add: replay_def)

lemma replay_Cons [simp]: "replay s (e # es) = replay (sched_step s e) es"
  by (simp add: replay_def)

lemma replay_append: "replay s (es @ fs) = replay (replay s es) fs"
  by (simp add: replay_def)

lemma scheduled_ids_append: "scheduled_ids (es @ fs) = scheduled_ids es @ scheduled_ids fs"
  by (induction es rule: scheduled_ids.induct) auto

lemma sched_inv_step:
  assumes "sched_inv issued s" and "set (scheduled_ids [e]) \<inter> issued = {}"
  shows "sched_inv (issued \<union> set (scheduled_ids [e])) (sched_step s e)"
proof (cases e)
  case (Schedule jid now startAt p)
  with assms show ?thesis
    using sched_inv_schedule [of issued s jid now startAt p] by simp
next
  case (TimerFires h)
  with assms show ?thesis by (simp add: sched_inv_fires)
next
  case (RunSettles h)
  with assms show ?thesis by (simp add: sched_inv_settles)
next
  case (Cancel jid)
  with assms show ?thesis by (simp add: sched_inv_cancel)
qed

lemma sched_inv_replay:
  assumes "sched_inv issued s" and "distinct (scheduled_ids es)"
    and "set (scheduled_ids es) \<inter> issued = {}"
  shows "sched_inv (issued \<union> set (scheduled_ids es)) (replay s es)"
  using assms
proof (induction es arbitrary: s issued)
  case Nil
  then show ?case by simp
next
  case (Cons e es)
  have split: "scheduled_ids (e # es) = scheduled_ids [e] @ scheduled_ids es"
    using scheduled_ids_append [of "[e]" es] by simp
  have step: "sched_inv (issued \<union> set (scheduled_ids [e])) (sched_step s e)"
    using Cons.prems by (intro sched_inv_step) (auto simp: split)
  have "sched_inv ((issued \<union> set (scheduled_ids [e])) \<union> set (scheduled_ids es))
          (replay (sched_step s e) es)"
    using Cons.prems by (intro Cons.IH [OF step]) (auto simp: split)
  then show ?case
    by (simp add: split Un_assoc)
qed

lemma sched_inv_history:
  "distinct (scheduled_ids history)
     \<Longrightarrow> sched_inv (set (scheduled_ids history)) (replay no_jobs history)"
  using sched_inv_replay [OF sched_inv_no_jobs, of history] by simp

lemma never_runs_step:
  assumes "never_runs jid s" and "jid \<notin> set (scheduled_ids [e])"
  shows "never_runs jid (sched_step s e)"
proof (cases e)
  case (Schedule i now startAt p)
  with assms show ?thesis
    by (auto simp: never_runs_def scheduleOneTimeCampaign_def Let_def invoked_ids_def)
next
  case (TimerFires h)
  with assms show ?thesis
    by (auto simp: never_runs_def timer_fires_def invoked_ids_def split: option.splits)
next
  case (RunSettles h)
  with assms show ?thesis
    by (auto simp: never_runs_def run_settles_def invoked_ids_def split: option.splits)
next
  case (Cancel i)
  with assms show ?thesis
    by (auto simp: never_runs_def cancelScheduledJob_def invoked_ids_def split: option.splits)
qed

lemma never_runs_replay:
  "never_runs jid s \<Longrightarrow> jid \<notin> set (scheduled_ids es) \<Longrightarrow> never_runs jid (replay s es)"
proof (induction es arbitrary: s)
  case Nil
  then show ?case by simp
next
  case (Cons e es)
  have split: "scheduled_ids (e # es) = scheduled_ids [e] @ scheduled_ids es"
    using scheduled_ids_append [of "[e]" es] by simp
  have "never_runs jid (sched_step s e)"
    using Cons.prems by (intro never_runs_step) (auto simp: split)
  then show ?case
    using Cons by (simp add: split)
qed

lemma cancel_pending_never_runs:
  assumes "sched_inv issued s" and "pending s jid"
  shows "never_runs jid (snd (cancelScheduledJob jid s))"
proof -
  from assms(2) obtain job c where job: "jobs s jid = Some job" and armed: "timers s (timer job) = Some c"
    by (auto simp: pending_def split: option.splits)
  obtain ms i p where c: "c = (ms, i, p)" by (cases c) auto
  from assms(1) armed c obtain j where j: "jobs s i = Some j" "timer j = timer job"
    and fresh: "i \<notin> invoked_ids s"
    unfolding sched_inv_def by blast
  have "i = jid"
    using assms(1) j job unfolding sched_inv_def by blast
  have only: "h = timer job" if "timers s h = Some (ms', jid, p')" for h ms' p'
  proof -
    from that assms(1) obtain j' where "jobs s jid = Some j'" "timer j' = h"
      unfolding sched_inv_def by blast
    with job show ?thesis by simp
  qed
  have after: "snd (cancelScheduledJob jid s)
      = s\<lparr>timers := (timers s)(timer job := None), jobs := (jobs s)(jid := None)\<rparr>"
    using job by (simp add: cancelScheduledJob_def)
  show ?thesis
    unfolding never_runs_def after using fresh \<open>i = jid\<close> only
    by (auto simp: invoked_ids_def)
qed

lemma agrees_no_jobs: "agrees no_jobs (\<lambda>jid. Unknown) 0"
  by (simp add: agrees_def no_jobs_def)

lemma agreesD:
  assumes "agrees s ph n"
  shows "next_timer s = n"
    and "ph jid = Unknown \<Longrightarrow> jobs s jid = None"
    and "ph jid = Removed \<Longrightarrow> jobs s jid = None"
    and "ph jid = Pending h \<Longrightarrow> h < n \<and> (\<exists>j. jobs s jid = Some j \<and> timer j = h)
                          \<and> (\<exists>ms p. timers s h = Some (ms, jid, p))"
    and "ph jid = Started h \<Longrightarrow> h < n \<and> (\<exists>j. jobs s jid = Some j \<and> timer j = h)
                          \<and> timers s h = None \<and> (\<exists>p. running s h = Some (jid, p))"
    and "timers s h = Some (ms, i, p) \<Longrightarrow> ph i = Pending h"
    and "running s h = Some (i, p) \<Longrightarrow> ph i = Started h \<or> ph i = Removed"
proof -
  from assms have all: "\<forall>jid. case ph jid of
            Unknown \<Rightarrow> jobs s jid = None
          | Pending h \<Rightarrow> h < n \<and> (\<exists>j. jobs s jid = Some j \<and> timer j = h)
                          \<and> (\<exists>ms p. timers s h = Some (ms, jid, p))
          | Started h \<Rightarrow> h < n \<and> (\<exists>j. jobs s jid = Some j \<and> timer j = h)
                          \<and> timers s h = None \<and> (\<exists>p. running s h = Some (jid, p))
          | Removed \<Rightarrow> jobs s jid = None"
    by (simp add: agrees_def)
  show "next_timer s = n" using assms by (simp add: agrees_def)
  show "ph jid = Unknown \<Longrightarrow> jobs s jid = None" using all [rule_format, of jid] by simp
  show "ph jid = Removed \<Longrightarrow> jobs s jid = None" using all [rule_format, of jid] by simp
  show "ph jid = Pending h \<Longrightarrow> h < n \<and> (\<exists>j. jobs s jid = Some j \<and> timer j = h)
                          \<and> (\<exists>ms p. timers s h = Some (ms, jid, p))"
    using all [rule_format, of jid] by simp
  show "ph jid = Started h \<Longrightarrow> h < n \<and> (\<exists>j. jobs s jid = Some j \<and> timer j = h)
                          \<and> timers s h = None \<and> (\<exists>p. running s h = Some (jid, p))"
    using all [rule_format, of jid] by simp
  show "timers s h = Some (ms, i, p) \<Longrightarrow> ph i = Pending h"
    using assms unfolding agrees_def by blast
  show "running s h = Some (i, p) \<Longrightarrow> ph i = Started h \<or> ph i = Removed"
    using assms unfolding agrees_def by blast
qed

lemma agrees_registry: "agrees s ph n \<Longrightarrow> (jobs s jid \<noteq> None) = in_registry (ph jid)"
  using agreesD(2-5) [of s ph n jid] by (cases "ph jid") auto

lemma agrees_pending: "agrees s ph n \<Longrightarrow> pending s jid = (\<exists>h. ph jid = Pending h)"
  using agreesD(2-5) [of s ph n jid] by (cases "ph jid") (auto simp: pending_def)

lemma agreesI:
  assumes "next_timer s = n"
    and "\<And>jid. ph jid = Unknown \<Longrightarrow> jobs s jid = None"
    and "\<And>jid. ph jid = Removed \<Longrightarrow> jobs s jid = None"
    and "\<And>jid h. ph jid = Pending h \<Longrightarrow> h < n \<and> (\<exists>j. jobs s jid = Some j \<and> timer j = h)
                          \<and> (\<exists>ms p. timers s h = Some (ms, jid, p))"
    and "\<And>jid h. ph jid = Started h \<Longrightarrow> h < n \<and> (\<exists>j. jobs s jid = Some j \<and> timer j = h)
                          \<and> timers s h = None \<and> (\<exists>p. running s h = Some (jid, p))"
    and "\<And>h ms i p. timers s h = Some (ms, i, p) \<Longrightarrow> ph i = Pending h"
    and "\<And>h i p. running s h = Some (i, p) \<Longrightarrow> ph i = Started h \<or> ph i = Removed"
  shows "agrees s ph n"
proof -
  have "case ph jid of
            Unknown \<Rightarrow> jobs s jid = None
          | Pending h \<Rightarrow> h < n \<and> (\<exists>j. jobs s jid = Some j \<and> timer j = h)
                          \<and> (\<exists>ms p. timers s h = Some (ms, jid, p))
          | Started h \<Rightarrow> h < n \<and> (\<exists>j. jobs s jid = Some j \<and> timer j = h)
                          \<and> timers s h = None \<and> (\<exists>p. running s h = Some (jid, p))
          | Removed \<Rightarrow> jobs s jid = None" for jid
    using assms(2-5) [of jid] by (cases "ph jid") simp_all
  with assms(1,6,7) show ?thesis
    unfolding agrees_def by blast
qed

lemma agrees_schedule:
  assumes "agrees s ph n" and "ph i = Unknown"
  shows "agrees (snd (scheduleOneTimeCampaign i now startAt p s))
           (\<lambda>jid. life_step jid n (ph jid) (Schedule i now startAt p)) (Suc n)"
proof -
  note D = agreesD [OF assms(1)]
  let ?job = "\<lparr>job_id = i, job_type = ''one-time'', job_startAt = startAt, job_params = p, timer = n\<rparr>"
  let ?s = "s\<lparr>timers := (timers s)(n \<mapsto> (max 0 (startAt - now), i, p)), next_timer := Suc n,
              jobs := (jobs s)(i \<mapsto> ?job)\<rparr>"
  have after: "snd (scheduleOneTimeCampaign i now startAt p s) = ?s"
    by (simp add: scheduleOneTimeCampaign_def Let_def D(1))
  have no_timer: "timers s h \<noteq> Some (ms, i, q)" for h ms q
    using D(6) [of h ms i q] assms(2) by auto
  have no_run: "running s h \<noteq> Some (i, q)" for h q
    using D(7) [of h i q] assms(2) by auto
  show ?thesis
    unfolding after
  proof (rule agreesI)
    show "next_timer ?s = Suc n" by simp
  next
    fix jid assume "life_step jid n (ph jid) (Schedule i now startAt p) = Unknown"
    then show "jobs ?s jid = None"
      using D(2) [of jid] by (auto split: if_splits)
  next
    fix jid assume "life_step jid n (ph jid) (Schedule i now startAt p) = Removed"
    then show "jobs ?s jid = None"
      using D(3) [of jid] assms(2) by (auto split: if_splits)
  next
    fix jid h assume "life_step jid n (ph jid) (Schedule i now startAt p) = Pending h"
    then show "h < Suc n \<and> (\<exists>j. jobs ?s jid = Some j \<and> timer j = h)
                 \<and> (\<exists>ms q. timers ?s h = Some (ms, jid, q))"
      using D(4) [of jid h] assms(2) by (auto split: if_splits)
  next
    fix jid h assume "life_step jid n (ph jid) (Schedule i now startAt p) = Started h"
    then show "h < Suc n \<and> (\<exists>j. jobs ?s jid = Some j \<and> timer j = h)
                 \<and> timers ?s h = None \<and> (\<exists>q. running ?s h = Some (jid, q))"
      using D(5) [of jid h] assms(2) by (auto split: if_splits)
  next
    fix h ms i' q assume "timers ?s h = Some (ms, i', q)"
    then show "life_step i' n (ph i') (Schedule i now startAt p) = Pending h"
      using D(6) [of h ms i' q] no_timer by (auto split: if_splits)
  next
    fix h i' q assume "running ?s h = Some (i', q)"
    then show "life_step i' n (ph i') (Schedule i now startAt p) = Started h
                 \<or> life_step i' n (ph i') (Schedule i now startAt p) = Removed"
      using D(7) [of h i' q] no_run by (auto split: if_splits)
  qed
qed

lemma agrees_fires:
  assumes "agrees s ph n"
  shows "agrees (timer_fires h s) (\<lambda>jid. life_step jid n (ph jid) (TimerFires h)) n"
proof (cases "timers s h")
  case None
  note D = agreesD [OF assms]
  have "life_step jid n (ph jid) (TimerFires h) = ph jid" for jid
    using D(4) [of jid h] None by auto
  then have same: "(\<lambda>jid. life_step jid n (ph jid) (TimerFires h)) = ph"
    by (intro ext)
  show ?thesis
    using assms None by (simp add: timer_fires_def same del: life_step.simps)
next
  case (Some c)
  note D = agreesD [OF assms]
  obtain ms i p where c: "c = (ms, i, p)" by (cases c) auto
  have i: "ph i = Pending h"
    using D(6) Some c by blast
  have only: "jid = i" if "ph jid = Pending h" for jid
    using D(4) [OF that] Some c by auto
  let ?s = "s\<lparr>timers := (timers s)(h := None), running := (running s)(h \<mapsto> (i, p)),
              invoked := invoked s @ [(i, p)]\<rparr>"
  have after: "timer_fires h s = ?s"
    using Some c by (simp add: timer_fires_def)
  have not_started: "ph jid \<noteq> Started h" for jid
    using D(5) [of jid h] Some by auto
  show ?thesis
    unfolding after
  proof (rule agreesI)
    show "next_timer ?s = n" using D(1) by simp
  next
    fix jid assume "life_step jid n (ph jid) (TimerFires h) = Unknown"
    then show "jobs ?s jid = None"
      using D(2) [of jid] by (auto split: if_splits)
  next
    fix jid assume "life_step jid n (ph jid) (TimerFires h) = Removed"
    then show "jobs ?s jid = None"
      using D(3) [of jid] by (auto split: if_splits)
  next
    fix jid h' assume "life_step jid n (ph jid) (TimerFires h) = Pending h'"
    then have "ph jid = Pending h'" "h' \<noteq> h"
      by (auto split: if_splits)
    then show "h' < n \<and> (\<exists>j. jobs ?s jid = Some j \<and> timer j = h')
                 \<and> (\<exists>ms q. timers ?s h' = Some (ms, jid, q))"
      using D(4) [of jid h'] by auto
  next
    fix jid h' assume st: "life_step jid n (ph jid) (TimerFires h) = Started h'"
    show "h' < n \<and> (\<exists>j. jobs ?s jid = Some j \<and> timer j = h')
                 \<and> timers ?s h' = None \<and> (\<exists>q. running ?s h' = Some (jid, q))"
    proof (cases "ph jid = Pending h")
      case True
      with st have "h' = h" by simp
      moreover have "jid = i" using True by (rule only)
      ultimately show ?thesis
        using D(4) [OF True] by auto
    next
      case False
      with st have old: "ph jid = Started h'" by simp
      with not_started have "h' \<noteq> h" by auto
      with D(5) [OF old] show ?thesis by auto
    qed
  next
    fix h' ms' i' q assume "timers ?s h' = Some (ms', i', q)"
    then have "h' \<noteq> h" "timers s h' = Some (ms', i', q)"
      by (auto split: if_splits)
    then show "life_step i' n (ph i') (TimerFires h) = Pending h'"
      using D(6) [of h' ms' i' q] by auto
  next
    fix h' i' q assume run: "running ?s h' = Some (i', q)"
    show "life_step i' n (ph i') (TimerFires h) = Started h'
            \<or> life_step i' n (ph i') (TimerFires h) = Removed"
    proof (cases "h' = h")
      case True
      with run have "i' = i" by simp
      with True i show ?thesis by simp
    next
      case False
      with run have "running s h' = Some (i', q)" by simp
      then have "ph i' = Started h' \<or> ph i' = Removed" by (rule D(7))
      then show ?thesis by auto
    qed
  qed
qed

lemma agrees_settles:
  assumes "agrees s ph n"
  shows "agrees (run_settles h s) (\<lambda>jid. life_step jid n (ph jid) (RunSettles h)) n"
proof (cases "running s h")
  case None
  note D = agreesD [OF assms]
  have "life_step jid n (ph jid) (RunSettles h) = ph jid" for jid
    using D(5) [of jid h] None by auto
  then have same: "(\<lambda>jid. life_step jid n (ph jid) (RunSettles h)) = ph"
    by (intro ext)
  show ?thesis
    using assms None by (simp add: run_settles_def same del: life_step.simps)
next
  case (Some c)
  note D = agreesD [OF assms]
  obtain i p where c: "c = (i, p)" by (cases c) auto
  have i: "ph i = Started h \<or> ph i = Removed"
    using D(7) Some c by blast
  have only: "jid = i" if "ph jid = Started h" for jid
    using D(5) [OF that] Some c by auto
  let ?s = "s\<lparr>running := (running s)(h := None), jobs := (jobs s)(i := None)\<rparr>"
  have after: "run_settles h s = ?s"
    using Some c by (simp add: run_settles_def)
  show ?thesis
    unfolding after
  proof (rule agreesI)
    show "next_timer ?s = n" using D(1) by simp
  next
    fix jid assume "life_step jid n (ph jid) (RunSettles h) = Unknown"
    then show "jobs ?s jid = None"
      using D(2) [of jid] by (auto split: if_splits)
  next
    fix jid assume "life_step jid n (ph jid) (RunSettles h) = Removed"
    then show "jobs ?s jid = None"
      using D(3) [of jid] only [of jid] by (auto split: if_splits)
  next
    fix jid h' assume "life_step jid n (ph jid) (RunSettles h) = Pending h'"
    then have old: "ph jid = Pending h'"
      by (auto split: if_splits)
    with i have "jid \<noteq> i" by auto
    with D(4) [OF old] show "h' < n \<and> (\<exists>j. jobs ?s jid = Some j \<and> timer j = h')
                 \<and> (\<exists>ms q. timers ?s h' = Some (ms, jid, q))"
      by auto
  next
    fix jid h' assume "life_step jid n (ph jid) (RunSettles h) = Started h'"
    then have old: "ph jid = Started h'" and "h' \<noteq> h"
      by (auto split: if_splits)
    moreover have "jid \<noteq> i"
      using old i \<open>h' \<noteq> h\<close> by auto
    ultimately show "h' < n \<and> (\<exists>j. jobs ?s jid = Some j \<and> timer j = h')
                 \<and> timers ?s h' = None \<and> (\<exists>q. running ?s h' = Some (jid, q))"
      using D(5) [OF old] by auto
  next
    fix h' ms' i' q assume "timers ?s h' = Some (ms', i', q)"
    then have "ph i' = Pending h'"
      using D(6) [of h' ms' i' q] by simp
    then show "life_step i' n (ph i') (RunSettles h) = Pending h'" by simp
  next
    fix h' i' q assume "running ?s h' = Some (i', q)"
    then have "h' \<noteq> h" "running s h' = Some (i', q)"
      by (auto split: if_splits)
    then have "ph i' = Started h' \<or> ph i' = Removed"
      using D(7) by blast
    with \<open>h' \<noteq> h\<close> show "life_step i' n (ph i') (RunSettles h) = Started h'
            \<or> life_step i' n (ph i') (RunSettles h) = Removed"
      by auto
  qed
qed

lemma agrees_cancel:
  assumes "agrees s ph n"
  shows "agrees (snd (cancelScheduledJob i s)) (\<lambda>jid. life_step jid n (ph jid) (Cancel i)) n"
proof (cases "jobs s i")
  case None
  note D = agreesD [OF assms]
  have "ph i = Unknown \<or> ph i = Removed"
    using D(4,5) [of i] None by (cases "ph i") auto
  then have "life_step jid n (ph jid) (Cancel i) = ph jid" for jid
    by auto
  then have same: "(\<lambda>jid. life_step jid n (ph jid) (Cancel i)) = ph"
    by (intro ext)
  show ?thesis
    using assms None by (simp add: cancelScheduledJob_def same del: life_step.simps)
next
  case (Some job)
  note D = agreesD [OF assms]
  let ?h = "timer job"
  have i: "ph i = Pending ?h \<or> ph i = Started ?h"
    using D(2,3,4,5) [of i] Some by (cases "ph i") auto
  have only: "jid = i" if "ph jid = Pending ?h \<or> ph jid = Started ?h" for jid
    using that i D(4) [of jid ?h] D(4) [of i ?h] D(5) [of jid ?h] D(5) [of i ?h] by auto
  let ?s = "s\<lparr>timers := (timers s)(?h := None), jobs := (jobs s)(i := None)\<rparr>"
  have after: "snd (cancelScheduledJob i s) = ?s"
    using Some by (simp add: cancelScheduledJob_def)
  show ?thesis
    unfolding after
  proof (rule agreesI)
    show "next_timer ?s = n" using D(1) by simp
  next
    fix jid assume "life_step jid n (ph jid) (Cancel i) = Unknown"
    then show "jobs ?s jid = None"
      using D(2) [of jid] by (auto split: if_splits)
  next
    fix jid assume "life_step jid n (ph jid) (Cancel i) = Removed"
    then show "jobs ?s jid = None"
      using D(3) [of jid] by (auto split: if_splits)
  next
    fix jid h' assume "life_step jid n (ph jid) (Cancel i) = Pending h'"
    then have old: "ph jid = Pending h'" and "jid \<noteq> i"
      using i by (auto split: if_splits)
    moreover have "h' \<noteq> ?h"
      using only [of jid] old \<open>jid \<noteq> i\<close> by auto
    ultimately show "h' < n \<and> (\<exists>j. jobs ?s jid = Some j \<and> timer j = h')
                 \<and> (\<exists>ms q. timers ?s h' = Some (ms, jid, q))"
      using D(4) [OF old] by auto
  next
    fix jid h' assume "life_step jid n (ph jid) (Cancel i) = Started h'"
    then have old: "ph jid = Started h'" and "jid \<noteq> i"
      using i by (auto split: if_splits)
    then show "h' < n \<and> (\<exists>j. jobs ?s jid = Some j \<and> timer j = h')
                 \<and> timers ?s h' = None \<and> (\<exists>q. running ?s h' = Some (jid, q))"
      using D(5) [OF old] by auto
  next
    fix h' ms' i' q assume "timers ?s h' = Some (ms', i', q)"
    then have "h' \<noteq> ?h" and old: "timers s h' = Some (ms', i', q)"
      by (auto split: if_splits)
    from old have "ph i' = Pending h'" by (rule D(6))
    moreover have "i' \<noteq> i"
      using \<open>ph i' = Pending h'\<close> \<open>h' \<noteq> ?h\<close> i D(5) [of i ?h] D(4) [of i ?h] D(4) [of i h'] by auto
    ultimately show "life_step i' n (ph i') (Cancel i) = Pending h'" by simp
  next
    fix h' i' q assume "running ?s h' = Some (i', q)"
    then have "ph i' = Started h' \<or> ph i' = Removed"
      using D(7) [of h' i' q] by simp
    then show "life_step i' n (ph i') (Cancel i) = Started h'
            \<or> life_step i' n (ph i') (Cancel i) = Removed"
      by auto
  qed
qed

lemma agrees_step:
  assumes "agrees s ph n" and "\<forall>i\<in>set (scheduled_ids [e]). ph i = Unknown"
  shows "agrees (sched_step s e) (\<lambda>jid. life_step jid n (ph jid) e) (n + length (scheduled_ids [e]))"
proof (cases e)
  case (Schedule i now startAt p)
  with assms show ?thesis
    using agrees_schedule [of s ph n i now startAt p] by simp
next
  case (TimerFires h)
  with assms show ?thesis
    using agrees_fires [of s ph n h] by simp
next
  case (RunSettles h)
  with assms show ?thesis
    using agrees_settles [of s ph n h] by simp
next
  case (Cancel i)
  with assms show ?thesis
    using agrees_cancel [of s ph n i] by simp
qed

lemma life_step_Unknown: "jid \<notin> set (scheduled_ids [e]) \<Longrightarrow> life_step jid n Unknown e = Unknown"
  by (cases e) auto

lemma agrees_replay:
  assumes "agrees s ph n" and "distinct (scheduled_ids es)"
    and "\<forall>i\<in>set (scheduled_ids es). ph i = Unknown"
  shows "agrees (replay s es) (\<lambda>jid. lives jid n (ph jid) es) (n + length (scheduled_ids es))"
  using assms
proof (induction es arbitrary: s ph n)
  case Nil
  then show ?case by simp
next
  case (Cons e es)
  have split: "scheduled_ids (e # es) = scheduled_ids [e] @ scheduled_ids es"
    using scheduled_ids_append [of "[e]" es] by simp
  have step: "agrees (sched_step s e) (\<lambda>jid. life_step jid n (ph jid) e) (n + length (scheduled_ids [e]))"
    using Cons.prems by (intro agrees_step) (auto simp: split)
  have fresh: "\<forall>i\<in>set (scheduled_ids es). life_step i n (ph i) e = Unknown"
  proof
    fix i assume i: "i \<in> set (scheduled_ids es)"
    with Cons.prems(2,3) have "i \<notin> set (scheduled_ids [e])" "ph i = Unknown"
      by (auto simp: split)
    then show "life_step i n (ph i) e = Unknown"
      by (simp add: life_step_Unknown)
  qed
  have "agrees (replay (sched_step s e) es)
          (\<lambda>jid. lives jid (n + length (scheduled_ids [e])) (life_step jid n (ph jid) e) es)
          (n + length (scheduled_ids [e]) + length (scheduled_ids es))"
    using Cons.prems(2) by (intro Cons.IH [OF step _ fresh]) (simp add: split)
  then show ?case
    by (simp add: split add.assoc)
qed

lemma agrees_history:
  "distinct (scheduled_ids history)
     \<Longrightarrow> agrees (replay no_jobs history) (\<lambda>jid. life jid history) (length (scheduled_ids history))"
  using agrees_replay [OF agrees_no_jobs, of history] by (simp add: life_def)

lemma lives_Unknown: "jid \<notin> set (scheduled_ids es) \<Longrightarrow> lives jid n Unknown es = Unknown"
proof (induction es arbitrary: n)
  case Nil
  show ?case by simp
next
  case (Cons e es)
  have split: "scheduled_ids (e # es) = scheduled_ids [e] @ scheduled_ids es"
    using scheduled_ids_append [of "[e]" es] by simp
  from Cons.prems have "jid \<notin> set (scheduled_ids [e])" "jid \<notin> set (scheduled_ids es)"
    by (simp_all add: split)
  then show ?case
    using Cons.IH by (simp add: life_step_Unknown del: life_step.simps scheduled_ids.simps)
qed

lemma life_Unknown: "jid \<notin> set (scheduled_ids history) \<Longrightarrow> life jid history = Unknown"
  by (simp add: life_def lives_Unknown)

text \<open>
  Claim C8 fails as stated: the job stays in the registry from the moment its timeout
  fires until its run has settled (the callback deletes it in its \<^verbatim>\<open>finally\<close> block, after
  \<^verbatim>\<open>await executeCampaignRun(params)\<close>). A cancel in between finds the job and returns
  success although the job is no longer pending and the campaign runner has been called
  for it.
\<close>

theorem cancel_after_firing_counterexample:
  "fst (cancelScheduledJob ''job_1''
          (replay no_jobs [Schedule ''job_1'' 0 10000 demo_params, TimerFires 0])) = True
   \<and> ''job_1'' \<in> invoked_ids (replay no_jobs [Schedule ''job_1'' 0 10000 demo_params, TimerFires 0])
   \<and> \<not> pending (replay no_jobs [Schedule ''job_1'' 0 10000 demo_params, TimerFires 0]) ''job_1''"
  by (simp add: no_jobs_def scheduleOneTimeCampaign_def timer_fires_def cancelScheduledJob_def
        invoked_ids_def pending_def Let_def)

text \<open>
  Claim C8, amended. After any history in which no job id is issued twice,
  \<open>cancelScheduledJob\<close> returns success exactly when the job is in the registry, that is,
  when it has been scheduled and has since neither been cancelled nor had its run settle:
  the job is still pending, or its timeout has fired and its run is in progress. On
  success the job's timeout is cleared and the job is removed from the registry;
  otherwise nothing changes. When the job is still pending, the campaign runner has not
  been called for it and is never called for it, whatever happens later; when its run has
  started, the runner has been called and the cancel succeeds all the same. The function
  returns failure when the id is unknown (never scheduled), and when the job was
  cancelled before or its run has settled (a job whose run settles is removed whatever
  the outcome).
\<close>

theorem cancelScheduledJob_follows_life:
  assumes "distinct (scheduled_ids (history @ later))"
    and "s = replay no_jobs history"
  shows "fst (cancelScheduledJob jid s) = in_registry (life jid history)
         \<and> (in_registry (life jid history) \<longrightarrow>
               (\<exists>job. jobs s jid = Some job
                  \<and> jobs (snd (cancelScheduledJob jid s)) jid = None
                  \<and> timers (snd (cancelScheduledJob jid s)) (timer job) = None))
         \<and> (\<not> in_registry (life jid history) \<longrightarrow> snd (cancelScheduledJob jid s) = s)
         \<and> ((\<exists>h. life jid history = Pending h) \<longrightarrow>
               jid \<notin> invoked_ids s
               \<and> jid \<notin> invoked_ids (replay (snd (cancelScheduledJob jid s)) later))
         \<and> ((\<exists>h. life jid history = Started h) \<longrightarrow> jid \<in> invoked_ids s)
         \<and> (jid \<notin> set (scheduled_ids history) \<longrightarrow> fst (cancelScheduledJob jid s) = False)"
proof -
  have distinct: "distinct (scheduled_ids history)" "distinct (scheduled_ids later)"
    and apart: "set (scheduled_ids history) \<inter> set (scheduled_ids later) = {}"
    using assms(1) by (simp_all add: scheduled_ids_append)
  have inv: "sched_inv (set (scheduled_ids history)) s"
    unfolding assms(2) using distinct(1) by (rule sched_inv_history)
  have agrees: "agrees s (\<lambda>jid. life jid history) (length (scheduled_ids history))"
    unfolding assms(2) using distinct(1) by (rule agrees_history)
  have registry: "(jobs s jid \<noteq> None) = in_registry (life jid history)"
    using agrees_registry [OF agrees] .
  have result: "fst (cancelScheduledJob jid s) = (jobs s jid \<noteq> None)"
    by (simp add: cancelScheduledJob_def split: option.split)
  have A: "fst (cancelScheduledJob jid s) = in_registry (life jid history)"
    using result registry by simp
  have B: "\<exists>job. jobs s jid = Some job
                  \<and> jobs (snd (cancelScheduledJob jid s)) jid = None
                  \<and> timers (snd (cancelScheduledJob jid s)) (timer job) = None"
    if "in_registry (life jid history)"
  proof -
    from that registry obtain job where "jobs s jid = Some job" by auto
    then show ?thesis by (simp add: cancelScheduledJob_def)
  qed
  have C: "snd (cancelScheduledJob jid s) = s" if "\<not> in_registry (life jid history)"
    using that registry by (simp add: cancelScheduledJob_def)
  have D: "jid \<notin> invoked_ids s \<and> jid \<notin> invoked_ids (replay (snd (cancelScheduledJob jid s)) later)"
    if "\<exists>h. life jid history = Pending h"
  proof -
    from that have pending: "pending s jid"
      using agrees_pending [OF agrees] by simp
    from that obtain h where h: "life jid history = Pending h" ..
    obtain ms p where "timers s h = Some (ms, jid, p)"
      using agreesD(4) [OF agrees h] by blast
    with inv have fresh: "jid \<notin> invoked_ids s"
      unfolding sched_inv_def by blast
    from pending have "jid \<in> dom (jobs s)"
      by (auto simp: pending_def split: option.splits)
    with inv have "jid \<in> set (scheduled_ids history)"
      unfolding sched_inv_def by blast
    with apart have "jid \<notin> set (scheduled_ids later)" by blast
    moreover have "never_runs jid (snd (cancelScheduledJob jid s))"
      using inv pending by (rule cancel_pending_never_runs)
    ultimately have "never_runs jid (replay (snd (cancelScheduledJob jid s)) later)"
      by (intro never_runs_replay)
    with fresh show ?thesis
      by (simp add: never_runs_def)
  qed
  have E: "jid \<in> invoked_ids s" if "\<exists>h. life jid history = Started h"
  proof -
    from that obtain h where h: "life jid history = Started h" ..
    obtain p where "running s h = Some (jid, p)"
      using agreesD(5) [OF agrees h] by blast
    with inv show ?thesis
      unfolding sched_inv_def by blast
  qed
  have F: "fst (cancelScheduledJob jid s) = False" if "jid \<notin> set (scheduled_ids history)"
    using A life_Unknown [OF that] by simp
  from A B C D E F show ?thesis by blast
qed

theorem cancelScheduledJob_follows_life_witness:
  "fst (cancelScheduledJob ''job_1'' (replay no_jobs [Schedule ''job_1'' 0 10000 demo_params])) = True
   \<and> ''job_1'' \<notin> invoked_ids
        (replay (snd (cancelScheduledJob ''job_1'' (replay no_jobs [Schedule ''job_1'' 0 10000 demo_params])))
           [TimerFires 0, Schedule ''job_2'' 5 20000 demo_params, TimerFires 1, RunSettles 1])
   \<and> fst (cancelScheduledJob ''job_1''
          (replay no_jobs [Schedule ''job_1'' 0 10000 demo_params, TimerFires 0, RunSettles 0])) = False
   \<and> fst (cancelScheduledJob ''job_1''
          (replay no_jobs [Schedule ''job_1'' 0 10000 demo_params, TimerFires 0, Cancel ''job_1''])) = False
   \<and> fst (cancelScheduledJob ''job_9'' (replay no_jobs [Schedule ''job_1'' 0 10000 demo_params])) = False"
proof -
  let ?history = "[Schedule ''job_1'' 0 10000 demo_params]"
  let ?later = "[TimerFires 0, Schedule ''job_2'' 5 20000 demo_params, TimerFires 1, RunSettles 1]"
  let ?settled = "[Schedule ''job_1'' 0 10000 demo_params, TimerFires 0, RunSettles 0]"
  let ?stopped = "[Schedule ''job_1'' 0 10000 demo_params, TimerFires 0, Cancel ''job_1'']"
  have d: "distinct (scheduled_ids (?history @ ?later))"
    and d2: "distinct (scheduled_ids (?settled @ []))"
    and d3: "distinct (scheduled_ids (?stopped @ []))"
    and d4: "distinct (scheduled_ids (?history @ []))"
    by simp_all
  have pending: "life ''job_1'' ?history = Pending 0"
    and settled: "life ''job_1'' ?settled = Removed"
    and stopped: "life ''job_1'' ?stopped = Removed"
    and unknown: "''job_9'' \<notin> set (scheduled_ids ?history)"
    by (simp_all add: life_def)
  from cancelScheduledJob_follows_life [OF d refl, of "''job_1''"] pending
  have A: "fst (cancelScheduledJob ''job_1'' (replay no_jobs ?history)) = True"
    and B: "''job_1'' \<notin> invoked_ids
              (replay (snd (cancelScheduledJob ''job_1'' (replay no_jobs ?history))) ?later)"
    by simp_all
  from cancelScheduledJob_follows_life [OF d2 refl, of "''job_1''"] settled
  have C: "fst (cancelScheduledJob ''job_1'' (replay no_jobs ?settled)) = False"
    by simp
  from cancelScheduledJob_follows_life [OF d3 refl, of "''job_1''"] stopped
  have D: "fst (cancelScheduledJob ''job_1'' (replay no_jobs ?stopped)) = False"
    by simp
  from cancelScheduledJob_follows_life [OF d4 refl, of "''job_9''"] unknown
  have E: "fst (cancelScheduledJob ''job_9'' (replay no_jobs ?history)) = False"
    by blast
  from A B C D E show ?thesis by (intro conjI)
qed

end
